theory Spec2Isabelle
  imports Main
begin

section \<open>Values, properties, objects and the heap\<close>

text \<open>
  The module \<^verbatim>\<open>jasmine-utils-lite.js\<close> works on JavaScript objects by reflection:
  it reads and enumerates properties along the prototype chain, and it replaces
  function-valued members by spies. The model is a store of objects addressed by
  natural numbers. Addresses are given out in allocation order, and the object at
  address \<open>0\<close> is the host's \<^verbatim>\<open>Object.prototype\<close>.
\<close>

type_synonym addr = nat

datatype val = VUndefined | VNull | VBool bool | VNum int | VStr string | VRef addr

text \<open>JavaScript truthiness, as used by \<^verbatim>\<open>if (x)\<close>, \<^verbatim>\<open>!x\<close> and \<^verbatim>\<open>while (x)\<close>.\<close>

fun truthy :: "val \<Rightarrow> bool" where
  "truthy VUndefined = False"
| "truthy VNull = False"
| "truthy (VBool b) = b"
| "truthy (VNum n) = (n \<noteq> 0)"
| "truthy (VStr s) = (s \<noteq> [])"
| "truthy (VRef a) = True"

text \<open>
  An exception is either a \<^verbatim>\<open>TypeError\<close> raised by the language or the host, or a
  value thrown by user code (here: by a getter).
\<close>

datatype exn = TypeError | Thrown val

text \<open>
  The outcome of a computation: it returns, it raises, or the model's fuel for the
  \<^verbatim>\<open>while\<close> loop of the walk ran out before the loop ended.
\<close>

datatype 'a res = Ret 'a | Throw exn | Unfinished

text \<open>
  A property is a data property (value, writable, enumerable) or an accessor
  property whose getter either returns a value or throws. Getters are pure and
  accessors have no setter.
\<close>

datatype getter = Returns val | Throws val

datatype property = Data val bool bool | Accessor getter bool

fun isEnumerable :: "property \<Rightarrow> bool" where
  "isEnumerable (Data v w e) = e"
| "isEnumerable (Accessor g e) = e"

text \<open>
  \<^verbatim>\<open>descriptor.writable\<close>: the flag of a data descriptor; an accessor descriptor has
  no such field, so the read gives \<^verbatim>\<open>undefined\<close>, which is falsy.
\<close>

fun isWritable :: "property \<Rightarrow> bool" where
  "isWritable (Data v w e) = w"
| "isWritable (Accessor g e) = False"

text \<open>
  A spy of the test-double framework records its calls (each an argument sequence)
  and carries the behaviour configured for it.
\<close>

record callRecord =
  receiver :: val
  args :: "val list"

datatype plan = Stub | ReturnValue val | CallFake val | CallThrough

record spyInfo =
  calls :: "callRecord list"
  spyPlan :: plan
  originalValue :: val

datatype okind = KObject | KFunction | KSpy spyInfo

record obj =
  props :: "(string \<times> property) list"
  proto :: "addr option"
  kind :: okind

type_synonym heap = "obj list"

definition objAt :: "heap \<Rightarrow> addr \<Rightarrow> obj option" where
  "objAt h a = (if a < length h then Some (h ! a) else None)"

definition objectPrototype :: addr where
  "objectPrototype = 0"

text \<open>
  \<^verbatim>\<open>Object.getPrototypeOf\<close>. An object's prototype is an object allocated before it
  (there is no \<^verbatim>\<open>Object.setPrototypeOf\<close> in the model), so the chain is finite; a
  link that does not point backwards is read as \<^verbatim>\<open>null\<close>.
\<close>

definition getPrototypeOf :: "heap \<Rightarrow> addr \<Rightarrow> addr option" where
  "getPrototypeOf h a =
     (case objAt h a of
        None \<Rightarrow> None
      | Some ob \<Rightarrow>
          (case proto ob of
             None \<Rightarrow> None
           | Some p \<Rightarrow> if p < a then Some p else None))"

function protoChain :: "heap \<Rightarrow> addr \<Rightarrow> addr list" where
  "protoChain h a =
     a # (case getPrototypeOf h a of None \<Rightarrow> [] | Some p \<Rightarrow> protoChain h p)"
  by pat_completeness auto
termination
  by (relation "measure (\<lambda>(h, a). a)")
    (auto simp: getPrototypeOf_def split: option.splits if_splits)

declare protoChain.simps [simp del]

definition ownProps :: "heap \<Rightarrow> addr \<Rightarrow> (string \<times> property) list" where
  "ownProps h a = (case objAt h a of None \<Rightarrow> [] | Some ob \<Rightarrow> props ob)"

text \<open>\<^verbatim>\<open>Object.getOwnPropertyDescriptor(o, name)\<close>; \<open>None\<close> is \<^verbatim>\<open>undefined\<close>.\<close>

definition getOwnPropertyDescriptor :: "heap \<Rightarrow> addr \<Rightarrow> string \<Rightarrow> property option" where
  "getOwnPropertyDescriptor h a n = map_of (ownProps h a) n"

text \<open>\<^verbatim>\<open>Object.getOwnPropertyNames(o)\<close>: all own names, enumerable or not.\<close>

definition getOwnPropertyNames :: "heap \<Rightarrow> addr \<Rightarrow> string list" where
  "getOwnPropertyNames h a = map fst (ownProps h a)"

fun firstProp :: "heap \<Rightarrow> addr list \<Rightarrow> string \<Rightarrow> property option" where
  "firstProp h [] n = None"
| "firstProp h (a # as) n =
     (case getOwnPropertyDescriptor h a n of
        Some p \<Rightarrow> Some p
      | None \<Rightarrow> firstProp h as n)"

definition findProp :: "heap \<Rightarrow> addr \<Rightarrow> string \<Rightarrow> property option" where
  "findProp h a n = firstProp h (protoChain h a) n"

text \<open>
  The property read \<^verbatim>\<open>o[name]\<close>: the first property of that name along the prototype
  chain; a missing property reads as \<^verbatim>\<open>undefined\<close>, a throwing getter raises.
\<close>

definition getProp :: "heap \<Rightarrow> addr \<Rightarrow> string \<Rightarrow> exn + val" where
  "getProp h a n =
     (case findProp h a n of
        None \<Rightarrow> Inr VUndefined
      | Some (Data v w e) \<Rightarrow> Inr v
      | Some (Accessor (Returns v) e) \<Rightarrow> Inr v
      | Some (Accessor (Throws x) e) \<Rightarrow> Inl (Thrown x))"

text \<open>
  The names \<^verbatim>\<open>for (var i in o)\<close> enumerates: the enumerable properties of \<open>o\<close> and
  of its prototype chain, most derived object first, where a name that an earlier
  object of the chain owns (enumerable or not) shadows the later ones. The list is
  taken when the loop starts.
\<close>

fun enumKeys :: "heap \<Rightarrow> addr list \<Rightarrow> string list \<Rightarrow> string list" where
  "enumKeys h [] shadowed = []"
| "enumKeys h (a # as) shadowed =
     filter (\<lambda>n. n \<notin> set shadowed)
       (map fst (filter (\<lambda>(n, p). isEnumerable p) (ownProps h a)))
     @ enumKeys h as (shadowed @ map fst (ownProps h a))"

definition forInKeys :: "heap \<Rightarrow> addr \<Rightarrow> string list" where
  "forInKeys h a = enumKeys h (protoChain h a) []"

section \<open>Object literals used as name tables\<close>

text \<open>
  \<^verbatim>\<open>foundProps\<close> and \<^verbatim>\<open>methodsToSkip\<close> are object literals \<^verbatim>\<open>{}\<close> private to one call,
  and every value stored in them is \<^verbatim>\<open>true\<close>. Such a table is the list of its own
  names; being an ordinary object it inherits from \<^verbatim>\<open>Object.prototype\<close>, so a read
  of a name it does not own falls through to the host's object.
\<close>

definition tableGet :: "heap \<Rightarrow> string list \<Rightarrow> string \<Rightarrow> exn + val" where
  "tableGet h own n =
     (if n \<in> set own then Inr (VBool True) else getProp h objectPrototype n)"

text \<open>
  \<^verbatim>\<open>table[name] = true\<close> in strict code: a new own property, unless the inherited
  property forbids the write (read-only data property, accessor without setter).
\<close>

definition tablePut :: "heap \<Rightarrow> string list \<Rightarrow> string \<Rightarrow> exn + string list" where
  "tablePut h own n =
     (if n \<in> set own then Inr own
      else (case findProp h objectPrototype n of
              None \<Rightarrow> Inr (own @ [n])
            | Some (Data v w e) \<Rightarrow> if w then Inr (own @ [n]) else Inl TypeError
            | Some (Accessor g e) \<Rightarrow> Inl TypeError))"

section \<open>The property walk\<close>

text \<open>
  The state of one walk: the store, the names recorded in \<^verbatim>\<open>foundProps\<close>, and
  (for the statements below) the log of the visitor's invocations in order:
  \<open>visits\<close> has the level and the name of each invocation, and \<open>moments\<close> has, at
  the same position, the loop that made the invocation and the store it was made in.
\<close>

datatype origin = ForIn | Descriptor

record wstate =
  wheap :: heap
  found :: "string list"
  visits :: "(addr \<times> string) list"
  moments :: "(origin \<times> heap) list"

type_synonym visitor = "addr \<Rightarrow> string \<Rightarrow> heap \<Rightarrow> unit res \<times> heap"

text \<open>\<^verbatim>\<open>foundProps[name] = true; iterator(currentProto, name);\<close>\<close>

definition dispatch ::
  "origin \<Rightarrow> visitor \<Rightarrow> addr \<Rightarrow> string \<Rightarrow> wstate \<Rightarrow> unit res \<times> wstate" where
  "dispatch via visit cur n s =
     (case tablePut (wheap s) (found s) n of
        Inl e \<Rightarrow> (Throw e, s)
      | Inr found' \<Rightarrow>
          (case visit cur n (wheap s) of
             (st, h') \<Rightarrow>
               (st, \<lparr>wheap = h', found = found', visits = visits s @ [(cur, n)],
                     moments = moments s @ [(via, wheap s)]\<rparr>)))"

text \<open>The \<^verbatim>\<open>for .. in\<close> loop of lines 165-171.\<close>

fun forInPass :: "visitor \<Rightarrow> addr \<Rightarrow> string list \<Rightarrow> wstate \<Rightarrow> unit res \<times> wstate" where
  "forInPass visit cur [] s = (Ret (), s)"
| "forInPass visit cur (i # rest) s =
     (case tableGet (wheap s) (found s) i of
        Inl e \<Rightarrow> (Throw e, s)
      | Inr seen \<Rightarrow>
          if truthy seen then forInPass visit cur rest s
          else (case getProp (wheap s) cur i of
                  Inl e \<Rightarrow> (Throw e, s)
                | Inr prop \<Rightarrow>
                    (case dispatch ForIn visit cur i s of
                       (Ret u, s') \<Rightarrow> forInPass visit cur rest s'
                     | (st, s') \<Rightarrow> (st, s'))))"

text \<open>
  Lines 177-184: the own names for which the filter callback answers \<^verbatim>\<open>true\<close>.
  The callback returns \<^verbatim>\<open>false\<close> after a successful read and \<^verbatim>\<open>true\<close> from the
  \<^verbatim>\<open>catch\<close> block, so the names kept are those whose read throws.
\<close>

definition collectOwnNames :: "heap \<Rightarrow> addr \<Rightarrow> string list" where
  "collectOwnNames h cur =
     filter (\<lambda>name. case getProp h cur name of Inl e \<Rightarrow> True | Inr v \<Rightarrow> False)
       (getOwnPropertyNames h cur)"

text \<open>The \<^verbatim>\<open>forEach\<close> of lines 189-193 over the ancestor's own names.\<close>

fun pushNames :: "string list \<Rightarrow> string list \<Rightarrow> string list" where
  "pushNames [] ps = ps"
| "pushNames (p # rest) ps =
     pushNames rest (if p \<noteq> ''constructor'' \<and> p \<notin> set ps then ps @ [p] else ps)"

text \<open>
  Lines 186-195. \<^verbatim>\<open>Object.getPrototypeOf({})\<close> is the host's \<^verbatim>\<open>Object.prototype\<close>;
  \<^verbatim>\<open>Object.getOwnPropertyNames(null)\<close> raises a \<^verbatim>\<open>TypeError\<close>.
\<close>

definition foldAncestorNames :: "heap \<Rightarrow> addr \<Rightarrow> string list \<Rightarrow> exn + string list" where
  "foldAncestorNames h cur ps =
     (case getProp h cur ''prototype'' of
        Inl e \<Rightarrow> Inl e
      | Inr slot \<Rightarrow>
          if \<not> truthy slot then
            (let getProtoResult = getPrototypeOf h cur in
             if getProtoResult \<noteq> Some objectPrototype then
               (case getProtoResult of
                  None \<Rightarrow> Inl TypeError
                | Some anc \<Rightarrow> Inr (pushNames (getOwnPropertyNames h anc) ps))
             else Inr ps)
          else Inr ps)"

text \<open>
  Line 202 followed by the read of \<^verbatim>\<open>descriptor.writable\<close> in line 204: the own
  descriptor, else the own descriptor of the prototype; reading a field of
  \<^verbatim>\<open>undefined\<close>, or asking for a descriptor of \<^verbatim>\<open>null\<close>, raises a \<^verbatim>\<open>TypeError\<close>.
\<close>

definition descriptorWritable :: "heap \<Rightarrow> addr \<Rightarrow> string \<Rightarrow> exn + bool" where
  "descriptorWritable h cur n =
     (case getOwnPropertyDescriptor h cur n of
        Some d \<Rightarrow> Inr (isWritable d)
      | None \<Rightarrow>
          (case getPrototypeOf h cur of
             None \<Rightarrow> Inl TypeError
           | Some anc \<Rightarrow>
               (case getOwnPropertyDescriptor h anc n of
                  None \<Rightarrow> Inl TypeError
                | Some d \<Rightarrow> Inr (isWritable d))))"

text \<open>The callback of \<^verbatim>\<open>props.forEach\<close>, lines 197-209.\<close>

definition descriptorStep :: "visitor \<Rightarrow> addr \<Rightarrow> string \<Rightarrow> wstate \<Rightarrow> unit res \<times> wstate" where
  "descriptorStep visit cur propName s =
     (case getProp (wheap s) cur propName of
        Inl e \<Rightarrow> (Throw e, s)
      | Inr prop \<Rightarrow>
          if propName \<noteq> ''prototype'' then
            (case tableGet (wheap s) (found s) propName of
               Inl e \<Rightarrow> (Throw e, s)
             | Inr seen \<Rightarrow>
                 if \<not> truthy seen then
                   (case descriptorWritable (wheap s) cur propName of
                      Inl e \<Rightarrow> (Throw e, s)
                    | Inr w \<Rightarrow> if w then dispatch Descriptor visit cur propName s else (Ret (), s))
                 else (Ret (), s))
          else (Ret (), s))"

fun descriptorPass :: "visitor \<Rightarrow> addr \<Rightarrow> string list \<Rightarrow> wstate \<Rightarrow> unit res \<times> wstate" where
  "descriptorPass visit cur [] s = (Ret (), s)"
| "descriptorPass visit cur (propName # rest) s =
     (case descriptorStep visit cur propName s of
        (Ret u, s') \<Rightarrow> descriptorPass visit cur rest s'
      | (st, s') \<Rightarrow> (st, s'))"

text \<open>One iteration of the \<^verbatim>\<open>while\<close> body up to the advance, lines 164-209.\<close>

definition walkLevel :: "visitor \<Rightarrow> addr \<Rightarrow> wstate \<Rightarrow> unit res \<times> wstate" where
  "walkLevel visit cur s =
     (case forInPass visit cur (forInKeys (wheap s) cur) s of
        (Ret u, s1) \<Rightarrow>
          (case foldAncestorNames (wheap s1) cur (collectOwnNames (wheap s1) cur) of
             Inl e \<Rightarrow> (Throw e, s1)
           | Inr ps \<Rightarrow> descriptorPass visit cur ps s1)
      | (st, s1) \<Rightarrow> (st, s1))"

text \<open>
  The \<^verbatim>\<open>while (currentProto)\<close> loop. The chain of \<^verbatim>\<open>prototype\<close> slots may be cyclic,
  so the loop need not end: the first argument bounds the number of iterations, and
  \<open>Unfinished\<close> says the bound was reached with the loop still running. Only objects
  are modelled as levels; for a truthy primitive the model reports the \<^verbatim>\<open>TypeError\<close>
  that ES5's \<^verbatim>\<open>Object.getOwnPropertyNames\<close> raises for a non-object.
\<close>

fun walkLoop :: "nat \<Rightarrow> visitor \<Rightarrow> val \<Rightarrow> wstate \<Rightarrow> unit res \<times> wstate" where
  "walkLoop 0 visit cur s = (if truthy cur then (Unfinished, s) else (Ret (), s))"
| "walkLoop (Suc k) visit cur s =
     (if \<not> truthy cur then (Ret (), s)
      else (case cur of
              VRef a \<Rightarrow>
                (case walkLevel visit a s of
                   (Ret u, s') \<Rightarrow>
                     (case getProp (wheap s') a ''prototype'' of
                        Inl e \<Rightarrow> (Throw e, s')
                      | Inr slot \<Rightarrow>
                          walkLoop k visit (if truthy slot then slot else VNull) s')
                 | (st, s') \<Rightarrow> (st, s'))
            | _ \<Rightarrow> (Throw TypeError, s)))"

definition forEachWritableProperties :: "nat \<Rightarrow> addr \<Rightarrow> visitor \<Rightarrow> heap \<Rightarrow> unit res \<times> wstate" where
  "forEachWritableProperties fuel obj iterator h =
     walkLoop fuel iterator (VRef obj) \<lparr>wheap = h, found = [], visits = [], moments = []\<rparr>"

section \<open>The spy framework\<close>

text \<open>
  Modelled from the spec: the test-double framework (\<^verbatim>\<open>jasmine.isSpy\<close>, \<^verbatim>\<open>spyOn\<close>,
  the configuration methods of a spy and its \<^verbatim>\<open>reset\<close>) is an external collaborator
  whose code is not part of this module. Section 6 of the specification describes
  it: a predicate that tells whether a value is a spy handle; an installer that
  turns a function member into a spy handle and returns the handle; configuration
  calls addressed by name with an argument list (at least: return a fixed value,
  delegate to a replacement, delegate to the original); a reset that clears the
  recorded calls and the configured behaviour. A spy is a function object tagged
  \<open>KSpy\<close>.
\<close>

definition kindOf :: "heap \<Rightarrow> val \<Rightarrow> okind option" where
  "kindOf h v =
     (case v of
        VRef a \<Rightarrow> (case objAt h a of None \<Rightarrow> None | Some ob \<Rightarrow> Some (kind ob))
      | _ \<Rightarrow> None)"

text \<open>\<^verbatim>\<open>typeof v === 'function'\<close>: plain functions and spies.\<close>

definition isFunction :: "heap \<Rightarrow> val \<Rightarrow> bool" where
  "isFunction h v =
     (case kindOf h v of
        Some KFunction \<Rightarrow> True
      | Some (KSpy i) \<Rightarrow> True
      | _ \<Rightarrow> False)"

definition isSpy :: "heap \<Rightarrow> val \<Rightarrow> bool" where
  "isSpy h v = (case kindOf h v of Some (KSpy i) \<Rightarrow> True | _ \<Rightarrow> False)"

definition spyInfoOf :: "heap \<Rightarrow> val \<Rightarrow> spyInfo option" where
  "spyInfoOf h v = (case kindOf h v of Some (KSpy i) \<Rightarrow> Some i | _ \<Rightarrow> None)"

text \<open>
  Modelled from the spec: the assignment \<^verbatim>\<open>obj[methodName] = spy\<close> by which the
  installer puts the spy in the member's place. The installer is not strict code,
  so an assignment that the object model forbids is silently without effect: that
  is the case when the property found along the prototype chain is a read-only data
  property (own or inherited) or an accessor, which in this model has no setter.
  Otherwise an own data property takes the value, and if the object has no own
  property of that name it gets a new one, writable and enumerable. Objects are
  extensible: the model has no \<^verbatim>\<open>Object.preventExtensions\<close>.
\<close>

definition assignable :: "heap \<Rightarrow> addr \<Rightarrow> string \<Rightarrow> bool" where
  "assignable h a n =
     (case findProp h a n of
        None \<Rightarrow> True
      | Some (Data v w e) \<Rightarrow> w
      | Some (Accessor g e) \<Rightarrow> False)"

fun withValue :: "val \<Rightarrow> property \<Rightarrow> property" where
  "withValue v (Data old w e) = Data v w e"
| "withValue v (Accessor g e) = Accessor g e"

definition setMember :: "string \<Rightarrow> val \<Rightarrow> (string \<times> property) list \<Rightarrow> (string \<times> property) list" where
  "setMember n v ps =
     (if n \<in> fst ` set ps
      then map (\<lambda>(k, p). if k = n then (k, withValue v p) else (k, p)) ps
      else ps @ [(n, Data v True True)])"

definition assign :: "addr \<Rightarrow> string \<Rightarrow> val \<Rightarrow> heap \<Rightarrow> heap" where
  "assign a n v h =
     (if assignable h a n then
        (case objAt h a of
           None \<Rightarrow> h
         | Some ob \<Rightarrow> h[a := ob\<lparr>props := setMember n v (props ob)\<rparr>])
      else h)"

text \<open>
  Modelled from the spec: a new spy has recorded no call and has no configured
  behaviour. Being a function of the host it inherits the host's members; of the
  host's prototypes the store has \<^verbatim>\<open>Object.prototype\<close>.
\<close>

definition freshSpy :: "val \<Rightarrow> obj" where
  "freshSpy original =
     \<lparr>props = [], proto = Some objectPrototype,
      kind = KSpy \<lparr>calls = [], spyPlan = Stub, originalValue = original\<rparr>\<rparr>"

text \<open>
  Modelled from the spec: \<^verbatim>\<open>spyOn(obj, method)\<close>. A new spy object is allocated,
  remembers the member's value, and is assigned to the member of \<open>obj\<close>; the handle
  is returned.
\<close>

definition spyOn :: "addr \<Rightarrow> string \<Rightarrow> heap \<Rightarrow> val res \<times> heap" where
  "spyOn obj method h =
     (case getProp h obj method of
        Inl e \<Rightarrow> (Throw e, h)
      | Inr original \<Rightarrow>
          (Ret (VRef (length h)),
           assign obj method (VRef (length h)) h @ [freshSpy original]))"

text \<open>
  Modelled from the spec: \<^verbatim>\<open>spy.reset()\<close>; on a value that is not a spy there is no
  such method.
\<close>

definition spyReset :: "val \<Rightarrow> heap \<Rightarrow> unit res \<times> heap" where
  "spyReset v h =
     (case v of
        VRef a \<Rightarrow>
          (case objAt h a of
             None \<Rightarrow> (Throw TypeError, h)
           | Some ob \<Rightarrow>
               (case kind ob of
                  KSpy i \<Rightarrow>
                    (Ret (), h[a := ob\<lparr>kind := KSpy (i\<lparr>calls := [], spyPlan := Stub\<rparr>)\<rparr>])
                | _ \<Rightarrow> (Throw TypeError, h)))
      | _ \<Rightarrow> (Throw TypeError, h))"

text \<open>
  A behaviour as the module's documentation gives it:
  \<^verbatim>\<open>{name: <behavior name>, arguments: []}\<close>.
\<close>

record behavior =
  name :: string
  arguments :: "val list"

definition firstArgument :: "val list \<Rightarrow> val" where
  "firstArgument vs = (case vs of [] \<Rightarrow> VUndefined | v # rest \<Rightarrow> v)"

text \<open>
  Modelled from the spec: the configuration methods that section 6 requires of a
  spy, by the names the module's documentation uses for them.
\<close>

definition planOf :: "behavior \<Rightarrow> plan option" where
  "planOf b =
     (if name b = ''andReturn'' then Some (ReturnValue (firstArgument (arguments b)))
      else if name b = ''andCallFake'' then Some (CallFake (firstArgument (arguments b)))
      else if name b = ''andCallThrough'' then Some CallThrough
      else None)"

text \<open>
  \<^verbatim>\<open>f.apply(receiver, arguments)\<close> for a value \<open>f\<close>. A spy records the call. The store
  has no code for a plain function, nor for what a spy's behaviour does after the
  call is recorded: such code is taken to return and to leave the store as it is.
  Any other value cannot be called.
\<close>

definition applyFunction :: "val \<Rightarrow> val \<Rightarrow> val list \<Rightarrow> heap \<Rightarrow> unit res \<times> heap" where
  "applyFunction f self as h =
     (case f of
        VRef a \<Rightarrow>
          (case objAt h a of
             None \<Rightarrow> (Throw TypeError, h)
           | Some ob \<Rightarrow>
               (case kind ob of
                  KFunction \<Rightarrow> (Ret (), h)
                | KSpy i \<Rightarrow>
                    (Ret (),
                     h[a := ob\<lparr>kind :=
                                 KSpy (i\<lparr>calls := calls i @ [\<lparr>receiver = self, args = as\<rparr>]\<rparr>)\<rparr>])
                | KObject \<Rightarrow> (Throw TypeError, h)))
      | _ \<Rightarrow> (Throw TypeError, h))"

text \<open>
  \<^verbatim>\<open>spy[behavior.name].apply(spy, behavior.arguments)\<close>, line 23. One of the three
  configuration methods sets the spy's behaviour. Of the other members of a spy the
  model has the two that the module itself uses: \<^verbatim>\<open>reset\<close> (line 95), a method, and
  \<^verbatim>\<open>calls\<close> (line 228), the list of call records, which is not a function. Under
  any other name the spy has, in this model, what it inherits: the member is read
  and applied, and when it is not a function (a name nobody defines reads as
  \<^verbatim>\<open>undefined\<close>) the call raises a \<^verbatim>\<open>TypeError\<close>.
\<close>

definition configure :: "val \<Rightarrow> behavior \<Rightarrow> heap \<Rightarrow> unit res \<times> heap" where
  "configure v b h =
     (case v of
        VRef a \<Rightarrow>
          (case objAt h a of
             None \<Rightarrow> (Throw TypeError, h)
           | Some ob \<Rightarrow>
               (case kind ob of
                  KSpy i \<Rightarrow>
                    (case planOf b of
                       Some pl \<Rightarrow> (Ret (), h[a := ob\<lparr>kind := KSpy (i\<lparr>spyPlan := pl\<rparr>)\<rparr>])
                     | None \<Rightarrow>
                         if name b = ''reset'' then spyReset v h
                         else if name b = ''calls'' then (Throw TypeError, h)
                         else (case getProp h a (name b) of
                                 Inl e \<Rightarrow> (Throw e, h)
                               | Inr f \<Rightarrow> applyFunction f v (arguments b) h))
                | _ \<Rightarrow> (Throw TypeError, h)))
      | _ \<Rightarrow> (Throw TypeError, h))"

section \<open>The operations of the module\<close>

text \<open>
  \<^verbatim>\<open>spyIf(obj, method, behavior)\<close>, lines 16-29. An absent behaviour (\<^verbatim>\<open>undefined\<close>)
  is \<open>None\<close>; a behaviour object is truthy.
\<close>

definition spyIf :: "addr \<Rightarrow> string \<Rightarrow> behavior option \<Rightarrow> heap \<Rightarrow> val res \<times> heap" where
  "spyIf obj method behavior h =
     (case getProp h obj method of
        Inl e \<Rightarrow> (Throw e, h)
      | Inr methodToSpy \<Rightarrow>
          if isFunction h methodToSpy \<and> \<not> isSpy h methodToSpy then
            (case spyOn obj method h of
               (Ret spy, h1) \<Rightarrow>
                 (case behavior of
                    None \<Rightarrow> (Ret spy, h1)
                  | Some b \<Rightarrow>
                      (case configure spy b h1 of
                         (Ret u, h2) \<Rightarrow> (Ret spy, h2)
                       | (Throw e, h2) \<Rightarrow> (Throw e, h2)
                       | (Unfinished, h2) \<Rightarrow> (Unfinished, h2)))
             | (st, h1) \<Rightarrow> (st, h1))
          else (Ret methodToSpy, h))"

text \<open>An argument that is either one value or an array of values.\<close>

datatype 'a oneOrMany = One 'a | Many "'a list"

text \<open>\<^verbatim>\<open>Array.isArray(x) ? x : [x]\<close>\<close>

fun toArray :: "'a oneOrMany \<Rightarrow> 'a list" where
  "toArray (One x) = [x]"
| "toArray (Many xs) = xs"

text \<open>\<^verbatim>\<open>getMethodsToSkip(excepts)\<close>, lines 246-256.\<close>

fun putAll :: "heap \<Rightarrow> string list \<Rightarrow> string list \<Rightarrow> exn + string list" where
  "putAll h methodsToSkip [] = Inr methodsToSkip"
| "putAll h methodsToSkip (method # rest) =
     (case tablePut h methodsToSkip method of
        Inl e \<Rightarrow> Inl e
      | Inr methodsToSkip' \<Rightarrow> putAll h methodsToSkip' rest)"

fun getMethodsToSkip :: "heap \<Rightarrow> string oneOrMany \<Rightarrow> exn + string list" where
  "getMethodsToSkip h (Many excepts) = putAll h [] excepts"
| "getMethodsToSkip h (One excepts) = tablePut h [] excepts"

fun dropValue :: "val res \<times> heap \<Rightarrow> unit res \<times> heap" where
  "dropValue (Ret v, h) = (Ret (), h)"
| "dropValue (Throw e, h) = (Throw e, h)"
| "dropValue (Unfinished, h) = (Unfinished, h)"

fun returning :: "val \<Rightarrow> unit res \<times> heap \<Rightarrow> val res \<times> heap" where
  "returning v (Ret u, h) = (Ret v, h)"
| "returning v (Throw e, h) = (Throw e, h)"
| "returning v (Unfinished, h) = (Unfinished, h)"

text \<open>The visitor that \<^verbatim>\<open>spyAllExcept\<close> passes to the walk, lines 42-50.\<close>

definition spyAllExceptVisitor :: "string list \<Rightarrow> behavior option \<Rightarrow> visitor" where
  "spyAllExceptVisitor methodsToSkip behavior targetObj method h =
     (case getProp h targetObj method of
        Inl e \<Rightarrow> (Throw e, h)
      | Inr methodToSpy \<Rightarrow>
          if \<not> isFunction h methodToSpy then (Ret (), h)
          else (case tableGet h methodsToSkip method of
                  Inl e \<Rightarrow> (Throw e, h)
                | Inr entry \<Rightarrow>
                    (let skipMethod = (entry \<noteq> VUndefined \<and> truthy entry) in
                     if \<not> skipMethod then dropValue (spyIf targetObj method behavior h)
                     else (Ret (), h))))"

definition spyAllExcept ::
  "nat \<Rightarrow> addr \<Rightarrow> string oneOrMany \<Rightarrow> behavior option \<Rightarrow> heap \<Rightarrow> val res \<times> heap" where
  "spyAllExcept fuel obj excepts behavior h =
     (case getMethodsToSkip h excepts of
        Inl e \<Rightarrow> (Throw e, h)
      | Inr methodsToSkip \<Rightarrow>
          (case forEachWritableProperties fuel obj
                  (spyAllExceptVisitor methodsToSkip behavior) h of
             (st, s) \<Rightarrow> returning (VRef obj) (st, wheap s)))"

definition spyAll :: "nat \<Rightarrow> addr \<Rightarrow> heap \<Rightarrow> val res \<times> heap" where
  "spyAll fuel obj h = spyAllExcept fuel obj (Many []) None h"

text \<open>
  \<^verbatim>\<open>spyEach(obj, methods, behaviors)\<close>, lines 63-76. An array read past the end
  gives \<^verbatim>\<open>undefined\<close>.
\<close>

definition elementAt :: "'a option list \<Rightarrow> nat \<Rightarrow> 'a option" where
  "elementAt xs i = (if i < length xs then xs ! i else None)"

function spyEachLoop ::
  "addr \<Rightarrow> string list \<Rightarrow> behavior option list \<Rightarrow> bool \<Rightarrow> nat \<Rightarrow> heap \<Rightarrow> unit res \<times> heap" where
  "spyEachLoop obj methodsToSpy spyBehaviors isSingleBehavior i h =
     (if i < length methodsToSpy then
        (case spyIf obj (methodsToSpy ! i)
                (if isSingleBehavior then elementAt spyBehaviors 0
                 else elementAt spyBehaviors i) h of
           (Ret v, h') \<Rightarrow> spyEachLoop obj methodsToSpy spyBehaviors isSingleBehavior (Suc i) h'
         | (Throw e, h') \<Rightarrow> (Throw e, h')
         | (Unfinished, h') \<Rightarrow> (Unfinished, h'))
      else (Ret (), h))"
  by pat_completeness auto
termination
  by (relation "measure (\<lambda>(obj, ms, bs, single, i, h). length ms - i)") auto

declare spyEachLoop.simps [simp del]

definition spyEach ::
  "addr \<Rightarrow> string oneOrMany \<Rightarrow> behavior option oneOrMany \<Rightarrow> heap \<Rightarrow> val res \<times> heap" where
  "spyEach obj methods behaviors h =
     (let methodsToSpy = toArray methods;
          spyBehaviors = toArray behaviors;
          isSingleBehavior = (length spyBehaviors = 1)
      in returning (VRef obj) (spyEachLoop obj methodsToSpy spyBehaviors isSingleBehavior 0 h))"

text \<open>\<^verbatim>\<open>reset(spy)\<close>, lines 94-96.\<close>

definition reset :: "val \<Rightarrow> heap \<Rightarrow> unit res \<times> heap" where
  "reset spy h = spyReset spy h"

text \<open>The visitor that \<^verbatim>\<open>resetAllExcept\<close> passes to the walk, lines 108-118.\<close>

definition resetAllExceptVisitor :: "string list \<Rightarrow> visitor" where
  "resetAllExceptVisitor methodsToSkip targetObj method h =
     (case getProp h targetObj method of
        Inl e \<Rightarrow> (Throw e, h)
      | Inr methodToSpy \<Rightarrow>
          if \<not> isFunction h methodToSpy then (Ret (), h)
          else (case tableGet h methodsToSkip method of
                  Inl e \<Rightarrow> (Throw e, h)
                | Inr entry \<Rightarrow>
                    (let skipMethod = (entry \<noteq> VUndefined \<and> \<not> truthy entry) in
                     if \<not> skipMethod then
                       (if isSpy h methodToSpy then reset methodToSpy h else (Ret (), h))
                     else (Ret (), h))))"

definition resetAllExcept ::
  "nat \<Rightarrow> addr \<Rightarrow> string oneOrMany \<Rightarrow> heap \<Rightarrow> val res \<times> heap" where
  "resetAllExcept fuel obj excepts h =
     (case getMethodsToSkip h excepts of
        Inl e \<Rightarrow> (Throw e, h)
      | Inr methodsToSkip \<Rightarrow>
          (case forEachWritableProperties fuel obj (resetAllExceptVisitor methodsToSkip) h of
             (st, s) \<Rightarrow> returning (VRef obj) (st, wheap s)))"

definition resetAll :: "nat \<Rightarrow> addr \<Rightarrow> heap \<Rightarrow> val res \<times> heap" where
  "resetAll fuel obj h = resetAllExcept fuel obj (Many []) h"

text \<open>\<^verbatim>\<open>resetEach(obj, methods)\<close>, lines 130-140.\<close>

function resetEachLoop :: "addr \<Rightarrow> string list \<Rightarrow> nat \<Rightarrow> heap \<Rightarrow> unit res \<times> heap" where
  "resetEachLoop obj methodsToSpy i h =
     (if i < length methodsToSpy then
        (case getProp h obj (methodsToSpy ! i) of
           Inl e \<Rightarrow> (Throw e, h)
         | Inr spy \<Rightarrow>
             if isSpy h spy then
               (case reset spy h of
                  (Ret u, h') \<Rightarrow> resetEachLoop obj methodsToSpy (Suc i) h'
                | (st, h') \<Rightarrow> (st, h'))
             else resetEachLoop obj methodsToSpy (Suc i) h)
      else (Ret (), h))"
  by pat_completeness auto
termination
  by (relation "measure (\<lambda>(obj, ms, i, h). length ms - i)") auto

declare resetEachLoop.simps [simp del]

definition resetEach :: "addr \<Rightarrow> string oneOrMany \<Rightarrow> heap \<Rightarrow> val res \<times> heap" where
  "resetEach obj methods h =
     returning (VRef obj) (resetEachLoop obj (toArray methods) 0 h)"

text \<open>
  \<^verbatim>\<open>getCallWithArg(obj, method, arg)\<close>, lines 227-244. \<^verbatim>\<open>Array.prototype.indexOf\<close>
  compares with strict equality, which on the values of the model is equality;
  the result \<open>None\<close> is the \<^verbatim>\<open>undefined\<close> of the never assigned \<^verbatim>\<open>callWithArg\<close>.
  Only a spy has a call list: on any other value the read of \<^verbatim>\<open>calls.length\<close> fails.
\<close>

fun indexOfFrom :: "val list \<Rightarrow> val \<Rightarrow> int \<Rightarrow> int" where
  "indexOfFrom [] v k = - 1"
| "indexOfFrom (x # xs) v k = (if x = v then k else indexOfFrom xs v (k + 1))"

definition indexOf :: "val list \<Rightarrow> val \<Rightarrow> int" where
  "indexOf xs v = indexOfFrom xs v 0"

function getCallLoop :: "callRecord list \<Rightarrow> val \<Rightarrow> nat \<Rightarrow> callRecord option" where
  "getCallLoop cs arg i =
     (if i < length cs then
        (if indexOf (args (cs ! i)) arg \<noteq> - 1 then Some (cs ! i)
         else getCallLoop cs arg (Suc i))
      else None)"
  by pat_completeness auto
termination
  by (relation "measure (\<lambda>(cs, arg, i). length cs - i)") auto

declare getCallLoop.simps [simp del]

definition getCallWithArg ::
  "addr \<Rightarrow> string \<Rightarrow> val \<Rightarrow> heap \<Rightarrow> callRecord option res \<times> heap" where
  "getCallWithArg obj method arg h =
     (case getProp h obj method of
        Inl e \<Rightarrow> (Throw e, h)
      | Inr spy \<Rightarrow>
          (case spyInfoOf h spy of
             None \<Rightarrow> (Throw TypeError, h)
           | Some i \<Rightarrow> (Ret (getCallLoop (calls i) arg 0), h)))"

section \<open>Example stores\<close>

text \<open>
  Concrete stores on which the statements below are evaluated. In each of them
  address \<open>0\<close> holds \<^verbatim>\<open>Object.prototype\<close> with its non-enumerable \<^verbatim>\<open>toString\<close>, and
  address \<open>1\<close> holds a plain function.
\<close>

definition hostObjectPrototype :: obj where
  "hostObjectPrototype =
     \<lparr>props = [(''toString'', Data (VRef 1) True False)], proto = None, kind = KObject\<rparr>"

definition plainFunction :: obj where
  "plainFunction = \<lparr>props = [], proto = None, kind = KFunction\<rparr>"

definition spyWithCalls :: "val list list \<Rightarrow> obj" where
  "spyWithCalls argLists =
     \<lparr>props = [], proto = None,
      kind = KSpy \<lparr>calls = map (\<lambda>as. \<lparr>receiver = VRef 2, args = as\<rparr>) argLists,
                   spyPlan = Stub, originalValue = VRef 1\<rparr>\<rparr>"

text \<open>
  The object at address \<open>2\<close> is
  \<^verbatim>\<open>{foo: <spy called with (1,2), (42,3), (5)>, bar: <spy called with (1), (2)>,
    baz: function(){}, size: 7}\<close>.
\<close>

definition spiedStore :: heap where
  "spiedStore =
     [hostObjectPrototype, plainFunction,
      \<lparr>props = [(''foo'', Data (VRef 3) True True), (''bar'', Data (VRef 4) True True),
                (''baz'', Data (VRef 5) True True), (''size'', Data (VNum 7) True True)],
       proto = Some 0, kind = KObject\<rparr>,
      spyWithCalls [[VNum 1, VNum 2], [VNum 42, VNum 3], [VNum 5]],
      spyWithCalls [[VNum 1], [VNum 2]],
      plainFunction]"

text \<open>
  The object at address \<open>2\<close> is a function \<^verbatim>\<open>F\<close> whose own non-enumerable member
  \<^verbatim>\<open>caller\<close> cannot be read (the restricted property of the comment in lines
  173-176); \<^verbatim>\<open>F.prototype\<close> is at address \<open>3\<close> and has the method \<^verbatim>\<open>run\<close>.
\<close>

definition restrictedStore :: heap where
  "restrictedStore =
     [hostObjectPrototype, plainFunction,
      \<lparr>props = [(''caller'', Accessor (Throws (VStr ''restricted'')) False),
                (''prototype'', Data (VRef 3) True False)],
       proto = Some 0, kind = KFunction\<rparr>,
      \<lparr>props = [(''constructor'', Data (VRef 2) True False),
                (''run'', Data (VRef 1) True True)],
       proto = Some 0, kind = KObject\<rparr>]"

text \<open>A visitor that does nothing; the walk's log still records its invocations.\<close>

definition idleVisitor :: visitor where
  "idleVisitor targetObj method h = (Ret (), h)"

text \<open>
  A constructor function \<^verbatim>\<open>F\<close> at address \<open>2\<close> with an own enumerable member
  \<^verbatim>\<open>run\<close>; \<^verbatim>\<open>F.prototype\<close> at address \<open>3\<close> defines \<^verbatim>\<open>run\<close> again, and \<^verbatim>\<open>stop\<close>.
\<close>

definition constructorStore :: heap where
  "constructorStore =
     [hostObjectPrototype, plainFunction,
      \<lparr>props = [(''run'', Data (VRef 1) True True),
                (''prototype'', Data (VRef 3) True False)],
       proto = Some 0, kind = KFunction\<rparr>,
      \<lparr>props = [(''constructor'', Data (VRef 2) True False),
                (''run'', Data (VRef 1) True True),
                (''stop'', Data (VRef 1) True True)],
       proto = Some 0, kind = KObject\<rparr>]"

text \<open>
  An instance \<^verbatim>\<open>o = new A()\<close> at address \<open>4\<close> without own members. \<^verbatim>\<open>A.prototype\<close>
  at address \<open>3\<close> has the non-enumerable members \<^verbatim>\<open>constructor\<close>, \<^verbatim>\<open>run\<close> and the
  read-only \<^verbatim>\<open>locked\<close>, and the enumerable \<^verbatim>\<open>stop\<close>.
\<close>

definition instanceStore :: heap where
  "instanceStore =
     [hostObjectPrototype, plainFunction,
      \<lparr>props = [(''prototype'', Data (VRef 3) True False)],
       proto = Some 0, kind = KFunction\<rparr>,
      \<lparr>props = [(''constructor'', Data (VRef 2) True False),
                (''run'', Data (VRef 1) True False),
                (''stop'', Data (VRef 1) True True),
                (''locked'', Data (VRef 1) False False)],
       proto = Some 0, kind = KObject\<rparr>,
      \<lparr>props = [], proto = Some 3, kind = KObject\<rparr>]"

text \<open>
  The object at address \<open>2\<close> has one enumerable, read-only member, as made by
  \<^verbatim>\<open>Object.defineProperty(O, 'version', {value: f, enumerable: true, writable: false})\<close>.
\<close>

definition frozenStore :: heap where
  "frozenStore =
     [hostObjectPrototype, plainFunction,
      \<lparr>props = [(''version'', Data (VRef 1) False True)], proto = Some 0, kind = KObject\<rparr>]"

text \<open>The state of the walk over \<^verbatim>\<open>o\<close> in \<open>instanceStore\<close> after its \<^verbatim>\<open>for .. in\<close> loop.\<close>

definition instanceAfterForIn :: wstate where
  "instanceAfterForIn =
     \<lparr>wheap = instanceStore, found = [''stop''], visits = [(4, ''stop'')],
      moments = [(ForIn, instanceStore)]\<rparr>"

text \<open>
  The object at address \<open>2\<close> is
  \<^verbatim>\<open>{foo: function(){}, bar: function(){}, baz: function(){}, size: 7}\<close>, with three
  different functions.
\<close>

definition methodsStore :: heap where
  "methodsStore =
     [hostObjectPrototype, plainFunction,
      \<lparr>props = [(''foo'', Data (VRef 3) True True), (''bar'', Data (VRef 4) True True),
                (''baz'', Data (VRef 5) True True), (''size'', Data (VNum 7) True True)],
       proto = Some 0, kind = KObject\<rparr>,
      plainFunction, plainFunction, plainFunction]"

text \<open>\<^verbatim>\<open>[{name: 'andReturn', arguments: [1]}, {name: 'andCallThrough', arguments: []}]\<close>\<close>

definition twoBehaviors :: "behavior option list" where
  "twoBehaviors =
     [Some \<lparr>name = ''andReturn'', arguments = [VNum 1]\<rparr>,
      Some \<lparr>name = ''andCallThrough'', arguments = []\<rparr>]"

text \<open>
  The object at address \<open>2\<close> has no prototype, as made by \<^verbatim>\<open>Object.create(null)\<close>,
  and one member: \<^verbatim>\<open>foo\<close>, a function.
\<close>

definition bareStore :: heap where
  "bareStore =
     [hostObjectPrototype, plainFunction,
      \<lparr>props = [(''foo'', Data (VRef 1) True True)], proto = None, kind = KObject\<rparr>]"

text \<open>\<^verbatim>\<open>{name: 'andBogus', arguments: []}\<close>: a name under which no spy has a function.\<close>

definition bogusBehavior :: behavior where
  "bogusBehavior = \<lparr>name = ''andBogus'', arguments = []\<rparr>"

text \<open>\<^verbatim>\<open>[{name: 'andReturn', arguments: [1]}, {name: 'toString', arguments: []}]\<close>\<close>

definition mixedBehaviors :: "behavior option list" where
  "mixedBehaviors =
     [Some \<lparr>name = ''andReturn'', arguments = [VNum 1]\<rparr>,
      Some \<lparr>name = ''toString'', arguments = []\<rparr>]"

section \<open>Notions used in the statements\<close>

text \<open>
  \<open>sameKind k k'\<close>: an object of kind \<open>k\<close> has become one of kind \<open>k'\<close> by nothing
  but calls recorded on it: a plain object is a plain object and a function is that
  function still, and a spy is a spy with the behaviour and the original it had.
\<close>

fun sameKind :: "okind \<Rightarrow> okind \<Rightarrow> bool" where
  "sameKind KObject k = (k = KObject)"
| "sameKind KFunction k = (k = KFunction)"
| "sameKind (KSpy i) k =
     (case k of
        KSpy j \<Rightarrow> spyPlan j = spyPlan i \<and> originalValue j = originalValue i
      | _ \<Rightarrow> False)"

text \<open>
  \<open>preserved obj N h h'\<close>: the store \<open>h'\<close> extends \<open>h\<close>; every object of \<open>h\<close> has the
  prototype it had and, up to recorded calls, the kind it had; every member has the
  descriptor it had, unless it is a member of \<open>obj\<close> with a name in \<open>N\<close>; and the
  objects allocated since are spies.
\<close>

definition preserved :: "addr \<Rightarrow> string set \<Rightarrow> heap \<Rightarrow> heap \<Rightarrow> bool" where
  "preserved obj N h h' =
     (length h \<le> length h'
      \<and> (\<forall>a<length h. getPrototypeOf h' a = getPrototypeOf h a)
      \<and> (\<forall>a<length h. \<forall>m. a \<noteq> obj \<or> m \<notin> N \<longrightarrow>
             getOwnPropertyDescriptor h' a m = getOwnPropertyDescriptor h a m)
      \<and> (\<forall>a<length h. sameKind (kind (h ! a)) (kind (h' ! a)))
      \<and> (\<forall>a. length h \<le> a \<and> a < length h' \<longrightarrow> (\<exists>i. kind (h' ! a) = KSpy i)))"

text \<open>
  \<open>resetOnly h h'\<close>: the store \<open>h'\<close> has the objects of \<open>h\<close> with the members and
  prototypes they had; an object has the kind it had, or it is a spy of \<open>h\<close> put
  back to its initial state. \<open>cleared h v\<close>: the value is a spy without recorded
  calls.
\<close>

definition resetOnly :: "heap \<Rightarrow> heap \<Rightarrow> bool" where
  "resetOnly h h' =
     (length h' = length h
      \<and> (\<forall>a. a < length h \<longrightarrow>
            props (h' ! a) = props (h ! a) \<and> proto (h' ! a) = proto (h ! a)
            \<and> (kind (h' ! a) = kind (h ! a)
               \<or> (\<exists>i. kind (h ! a) = KSpy i
                       \<and> kind (h' ! a) = KSpy (i\<lparr>calls := [], spyPlan := Stub\<rparr>)))))"

definition cleared :: "heap \<Rightarrow> val \<Rightarrow> bool" where
  "cleared h v = (map_option calls (spyInfoOf h v) = Some [])"

text \<open>
  \<open>hasBehavior h b\<close>: a spy made in the store \<open>h\<close> has a function under the name of
  the behaviour \<open>b\<close>: one of its configuration methods, its \<^verbatim>\<open>reset\<close>, or a function
  that it inherits from \<^verbatim>\<open>Object.prototype\<close>.
\<close>

definition hasBehavior :: "heap \<Rightarrow> behavior \<Rightarrow> bool" where
  "hasBehavior h b =
     (case planOf b of
        Some pl \<Rightarrow> True
      | None \<Rightarrow>
          name b = ''reset''
          \<or> (name b \<noteq> ''calls''
              \<and> (case getProp h objectPrototype (name b) of
                     Inl e \<Rightarrow> False
                   | Inr f \<Rightarrow> isFunction h f)))"

text \<open>
  \<open>spyable h obj m\<close>: the member \<open>m\<close> of \<open>obj\<close> is a function, not a spy, and an
  assignment to the member takes effect.
\<close>

definition spyable :: "heap \<Rightarrow> addr \<Rightarrow> string \<Rightarrow> bool" where
  "spyable h obj m =
     (case getProp h obj m of
        Inl e \<Rightarrow> False
      | Inr v \<Rightarrow> isFunction h v \<and> \<not> isSpy h v \<and> assignable h obj m)"

text \<open>
  \<open>spiedUpTo h0 obj ms nb i h\<close>: what the loop of \<open>spyEach\<close> has achieved in the store
  \<open>h\<close> for the first \<open>i\<close> names of \<open>ms\<close>, relative to the store \<open>h0\<close> it started
  from, where \<open>nb\<close> is the number of behaviours: a member that was spyable is a spy
  now, with no configured behaviour when its name does not occur among the first
  \<open>nb\<close> names.
\<close>

definition spiedUpTo :: "heap \<Rightarrow> addr \<Rightarrow> string list \<Rightarrow> nat \<Rightarrow> nat \<Rightarrow> heap \<Rightarrow> bool" where
  "spiedUpTo h0 obj ms nb i h =
     (\<forall>m\<in>set (take i ms). spyable h0 obj m \<longrightarrow>
        (\<exists>sp. getProp h obj m = Inr sp \<and> isSpy h sp
           \<and> (m \<notin> set (take nb ms) \<longrightarrow> map_option spyPlan (spyInfoOf h sp) = Some Stub)))"

section \<open>The store under property reads and spy installation\<close>

lemma getPrototypeOf_less: "getPrototypeOf h a = Some p \<Longrightarrow> p < a"
  by (auto simp: getPrototypeOf_def split: option.splits if_splits)

lemma protoChain_cong:
  assumes "\<forall>a. getPrototypeOf h' a = getPrototypeOf h a"
  shows "protoChain h' a = protoChain h a"
proof (induction a rule: less_induct)
  case (less a)
  show ?case
  proof (cases "getPrototypeOf h a")
    case None
    with assms show ?thesis
      by (simp add: protoChain.simps [of h a] protoChain.simps [of h' a])
  next
    case (Some p)
    then have "p < a" by (rule getPrototypeOf_less)
    then have "protoChain h' p = protoChain h p" by (rule less.IH)
    with Some assms show ?thesis
      by (simp add: protoChain.simps [of h a] protoChain.simps [of h' a])
  qed
qed

lemma firstProp_cong:
  assumes "\<forall>a. getOwnPropertyDescriptor h' a n = getOwnPropertyDescriptor h a n"
  shows "firstProp h' as n = firstProp h as n"
  using assms by (induction as) (simp_all split: option.splits)

lemma getProp_cong:
  assumes "\<forall>a. getPrototypeOf h' a = getPrototypeOf h a"
    and "\<forall>a. getOwnPropertyDescriptor h' a n = getOwnPropertyDescriptor h a n"
  shows "getProp h' a n = getProp h a n"
  using assms
  by (simp add: getProp_def findProp_def protoChain_cong [of h' h] firstProp_cong [of h' n h])

lemma protoChain_bound: "c \<in> set (protoChain h a) \<Longrightarrow> c \<le> a"
proof (induction a rule: less_induct)
  case (less a)
  show ?case
  proof (cases "getPrototypeOf h a")
    case None
    with less.prems show ?thesis by (simp add: protoChain.simps [of h a])
  next
    case (Some p)
    then have p: "p < a" by (rule getPrototypeOf_less)
    from less.prems Some have "c = a \<or> c \<in> set (protoChain h p)"
      by (simp add: protoChain.simps [of h a])
    then show ?thesis
    proof
      assume "c = a"
      then show ?thesis by simp
    next
      assume "c \<in> set (protoChain h p)"
      with p have "c \<le> p" by (rule less.IH)
      with p show ?thesis by simp
    qed
  qed
qed

lemma protoChain_zero: "protoChain h 0 = [0]"
proof -
  have "getPrototypeOf h 0 = None"
    using getPrototypeOf_less [of h 0] by (cases "getPrototypeOf h 0") auto
  then show ?thesis by (simp add: protoChain.simps [of h 0])
qed

lemma protoChain_below_cong:
  assumes "\<forall>c\<le>a. getPrototypeOf h' c = getPrototypeOf h c"
  shows "protoChain h' a = protoChain h a"
  using assms
proof (induction a rule: less_induct)
  case (less a)
  show ?case
  proof (cases "getPrototypeOf h a")
    case None
    with less.prems show ?thesis
      by (simp add: protoChain.simps [of h a] protoChain.simps [of h' a])
  next
    case (Some p)
    then have p: "p < a" by (rule getPrototypeOf_less)
    with less.prems have "\<forall>c\<le>p. getPrototypeOf h' c = getPrototypeOf h c" by simp
    with p have "protoChain h' p = protoChain h p" by (rule less.IH)
    with Some less.prems show ?thesis
      by (simp add: protoChain.simps [of h a] protoChain.simps [of h' a])
  qed
qed

lemma firstProp_on_cong:
  assumes "\<forall>c\<in>set as. getOwnPropertyDescriptor h' c n = getOwnPropertyDescriptor h c n"
  shows "firstProp h' as n = firstProp h as n"
  using assms by (induction as) (simp_all split: option.splits)

lemma findProp_below_cong:
  assumes "\<forall>c\<le>a. getPrototypeOf h' c = getPrototypeOf h c"
    and "\<forall>c\<in>set (protoChain h a). getOwnPropertyDescriptor h' c n = getOwnPropertyDescriptor h c n"
  shows "findProp h' a n = findProp h a n"
  using assms
  by (simp add: findProp_def protoChain_below_cong [of a h' h] firstProp_on_cong)

lemma sameKind_refl: "sameKind k k"
  by (cases k) simp_all

lemma sameKind_trans: "sameKind k k' \<Longrightarrow> sameKind k' k'' \<Longrightarrow> sameKind k k''"
  by (cases k; cases k'; cases k'') simp_all

lemma sameKind_spy: "sameKind (KSpy i) k \<Longrightarrow> \<exists>j. k = KSpy j \<and> spyPlan j = spyPlan i"
  by (cases k) simp_all

lemma preserved_refl: "preserved obj N h h"
  by (auto simp: preserved_def sameKind_refl)

lemma preserved_length: "preserved obj N h h' \<Longrightarrow> length h \<le> length h'"
  by (simp add: preserved_def)

lemma preserved_kind:
  "preserved obj N h h' \<Longrightarrow> a < length h \<Longrightarrow> sameKind (kind (h ! a)) (kind (h' ! a))"
  by (simp add: preserved_def)

lemma preserved_new_spy:
  "preserved obj N h h' \<Longrightarrow> length h \<le> a \<Longrightarrow> a < length h' \<Longrightarrow> \<exists>i. kind (h' ! a) = KSpy i"
  by (simp add: preserved_def)

lemma preserved_trans:
  assumes "preserved obj N h h'" and "preserved obj M h' h''"
  shows "preserved obj (N \<union> M) h h''"
  unfolding preserved_def
proof (intro conjI allI impI)
  from assms have le: "length h \<le> length h'" "length h' \<le> length h''"
    by (simp_all add: preserved_def)
  then show "length h \<le> length h''" by simp
  show "getPrototypeOf h'' a = getPrototypeOf h a" if "a < length h" for a
    using assms le that by (simp add: preserved_def)
  show "getOwnPropertyDescriptor h'' a m = getOwnPropertyDescriptor h a m"
    if "a < length h" "a \<noteq> obj \<or> m \<notin> N \<union> M" for a m
  proof -
    from that le have a': "a < length h'" by simp
    from that(2) have 1: "a \<noteq> obj \<or> m \<notin> N" and 2: "a \<noteq> obj \<or> m \<notin> M" by auto
    from assms(1) that(1) 1
    have "getOwnPropertyDescriptor h' a m = getOwnPropertyDescriptor h a m"
      by (simp add: preserved_def)
    moreover from assms(2) a' 2
    have "getOwnPropertyDescriptor h'' a m = getOwnPropertyDescriptor h' a m"
      by (simp add: preserved_def)
    ultimately show ?thesis by simp
  qed
  show "sameKind (kind (h ! a)) (kind (h'' ! a))" if "a < length h" for a
  proof -
    from that le have a': "a < length h'" by simp
    from assms(1) that have "sameKind (kind (h ! a)) (kind (h' ! a))" by (rule preserved_kind)
    moreover from assms(2) a' have "sameKind (kind (h' ! a)) (kind (h'' ! a))"
      by (rule preserved_kind)
    ultimately show ?thesis by (rule sameKind_trans)
  qed
  show "\<exists>i. kind (h'' ! a) = KSpy i" if "length h \<le> a \<and> a < length h''" for a
  proof (cases "a < length h'")
    case True
    with assms(1) that obtain i where i: "kind (h' ! a) = KSpy i"
      using preserved_new_spy [of obj N h h' a] by auto
    from assms(2) True have "sameKind (kind (h' ! a)) (kind (h'' ! a))"
      by (rule preserved_kind)
    with i have "sameKind (KSpy i) (kind (h'' ! a))" by simp
    then have "\<exists>j. kind (h'' ! a) = KSpy j \<and> spyPlan j = spyPlan i" by (rule sameKind_spy)
    then show ?thesis by blast
  next
    case False
    with assms(2) that show ?thesis by (simp add: preserved_def)
  qed
qed

lemma preserved_findProp:
  assumes "preserved obj N h h'" and "a < length h"
    and "\<forall>c\<in>set (protoChain h a). c \<noteq> obj \<or> n \<notin> N"
  shows "findProp h' a n = findProp h a n"
proof (rule findProp_below_cong)
  from assms(1,2) show "\<forall>c\<le>a. getPrototypeOf h' c = getPrototypeOf h c"
    by (simp add: preserved_def)
  show "\<forall>c\<in>set (protoChain h a).
          getOwnPropertyDescriptor h' c n = getOwnPropertyDescriptor h c n"
  proof
    fix c assume c: "c \<in> set (protoChain h a)"
    then have "c \<le> a" by (rule protoChain_bound)
    with assms(2) have "c < length h" by simp
    moreover from assms(3) c have "c \<noteq> obj \<or> n \<notin> N" by blast
    ultimately show "getOwnPropertyDescriptor h' c n = getOwnPropertyDescriptor h c n"
      using assms(1) by (simp add: preserved_def)
  qed
qed

lemma preserved_getProp:
  "preserved obj N h h' \<Longrightarrow> a < length h \<Longrightarrow> n \<notin> N \<Longrightarrow> getProp h' a n = getProp h a n"
  by (simp add: getProp_def preserved_findProp)

lemma preserved_assignable:
  "preserved obj N h h' \<Longrightarrow> a < length h \<Longrightarrow> n \<notin> N \<Longrightarrow> assignable h' a n = assignable h a n"
  by (simp add: assignable_def preserved_findProp)

lemma preserved_getProp_host:
  "preserved obj N h h' \<Longrightarrow> 0 < length h \<Longrightarrow> obj \<noteq> 0 \<or> n \<notin> N \<Longrightarrow>
   getProp h' 0 n = getProp h 0 n"
  by (simp add: getProp_def preserved_findProp protoChain_zero)

lemma preserved_isFunction:
  assumes "preserved obj N h h'" and "isFunction h v"
  shows "isFunction h' v"
proof -
  from assms(2) obtain a where v: "v = VRef a" and a: "a < length h"
    and k: "kind (h ! a) = KFunction \<or> (\<exists>i. kind (h ! a) = KSpy i)"
    by (cases v) (auto simp: isFunction_def kindOf_def objAt_def
        split: if_splits option.splits okind.splits)
  from assms(1) a have s: "sameKind (kind (h ! a)) (kind (h' ! a))" by (rule preserved_kind)
  from assms(1) a have a': "a < length h'" by (simp add: preserved_def)
  from k have "kind (h' ! a) = KFunction \<or> (\<exists>j. kind (h' ! a) = KSpy j)"
  proof
    assume "kind (h ! a) = KFunction"
    with s show ?thesis by simp
  next
    assume "\<exists>i. kind (h ! a) = KSpy i"
    then obtain i where "kind (h ! a) = KSpy i" ..
    with s have "sameKind (KSpy i) (kind (h' ! a))" by simp
    then have "\<exists>j. kind (h' ! a) = KSpy j \<and> spyPlan j = spyPlan i" by (rule sameKind_spy)
    then show ?thesis by blast
  qed
  with v a' show ?thesis by (auto simp: isFunction_def kindOf_def objAt_def)
qed

lemma preserved_isSpy:
  assumes "preserved obj N h h'" and "isSpy h v"
  shows "isSpy h' v"
proof -
  from assms(2) obtain a i where v: "v = VRef a" and a: "a < length h"
    and k: "kind (h ! a) = KSpy i"
    by (cases v) (auto simp: isSpy_def kindOf_def objAt_def
        split: if_splits option.splits okind.splits)
  from assms(1) a have s: "sameKind (kind (h ! a)) (kind (h' ! a))" by (rule preserved_kind)
  from assms(1) a have a': "a < length h'" by (simp add: preserved_def)
  from k s have "sameKind (KSpy i) (kind (h' ! a))" by simp
  then have "\<exists>j. kind (h' ! a) = KSpy j \<and> spyPlan j = spyPlan i" by (rule sameKind_spy)
  then obtain j where "kind (h' ! a) = KSpy j" by blast
  with v a' show ?thesis by (simp add: isSpy_def kindOf_def objAt_def)
qed

lemma preserved_plan:
  assumes "preserved obj N h h'" and "map_option spyPlan (spyInfoOf h sp) = Some pl"
  shows "map_option spyPlan (spyInfoOf h' sp) = Some pl"
proof -
  from assms(2) obtain a i where v: "sp = VRef a" and a: "a < length h"
    and k: "kind (h ! a) = KSpy i" and pl: "spyPlan i = pl"
    by (cases sp) (auto simp: spyInfoOf_def kindOf_def objAt_def
        split: if_splits option.splits okind.splits)
  from assms(1) a have s: "sameKind (kind (h ! a)) (kind (h' ! a))" by (rule preserved_kind)
  from assms(1) a have a': "a < length h'" by (simp add: preserved_def)
  from k s have "sameKind (KSpy i) (kind (h' ! a))" by simp
  then have "\<exists>j. kind (h' ! a) = KSpy j \<and> spyPlan j = spyPlan i" by (rule sameKind_spy)
  then obtain j where "kind (h' ! a) = KSpy j" "spyPlan j = spyPlan i" by blast
  with v a' pl show ?thesis by (simp add: spyInfoOf_def kindOf_def objAt_def)
qed

lemma preserved_plain:
  assumes "preserved obj N h h'"
  shows "(isFunction h' v \<and> \<not> isSpy h' v) = (isFunction h v \<and> \<not> isSpy h v)"
proof (cases v)
  case (VRef a)
  show ?thesis
  proof (cases "a < length h")
    case True
    with assms have s: "sameKind (kind (h ! a)) (kind (h' ! a))" by (rule preserved_kind)
    from assms True have a': "a < length h'" by (simp add: preserved_def)
    from s have "(kind (h' ! a) = KFunction) = (kind (h ! a) = KFunction)"
      by (cases "kind (h ! a)"; cases "kind (h' ! a)") simp_all
    with VRef True a' show ?thesis
      by (auto simp: isFunction_def isSpy_def kindOf_def objAt_def split: okind.splits)
  next
    case False
    then have old: "\<not> isFunction h v" using VRef by (simp add: isFunction_def kindOf_def objAt_def)
    show ?thesis
    proof (cases "a < length h'")
      case True
      with False assms obtain i where "kind (h' ! a) = KSpy i"
        using preserved_new_spy [of obj N h h' a] by auto
      with True VRef have "isSpy h' v" by (simp add: isSpy_def kindOf_def objAt_def)
      with old show ?thesis by simp
    next
      case False
      with VRef have "\<not> isFunction h' v" by (simp add: isFunction_def kindOf_def objAt_def)
      with old show ?thesis by simp
    qed
  qed
qed (simp_all add: isFunction_def isSpy_def kindOf_def)

lemma findProp_own:
  "getOwnPropertyDescriptor h a n = Some p \<Longrightarrow> findProp h a n = Some p"
  by (simp add: findProp_def protoChain.simps [of h a])

lemma findProp_not_own:
  "getOwnPropertyDescriptor h a n = None \<Longrightarrow> getPrototypeOf h a = Some p \<Longrightarrow>
   findProp h a n = findProp h p n"
  by (simp add: findProp_def protoChain.simps [of h a])

lemma getProp_dangling: "\<not> a < length h \<Longrightarrow> getProp h a n = Inr VUndefined"
  by (simp add: getProp_def findProp_def protoChain.simps [of h a] getPrototypeOf_def
      objAt_def getOwnPropertyDescriptor_def ownProps_def)

lemma isFunction_not_undefined: "isFunction h v \<Longrightarrow> v \<noteq> VUndefined"
  by (auto simp: isFunction_def kindOf_def)

lemma function_member_of_object:
  "getProp h a n = Inr v \<Longrightarrow> isFunction h v \<Longrightarrow> a < length h"
  using getProp_dangling [of a h n] isFunction_not_undefined [of h v] by auto

lemma map_of_retag:
  "m \<noteq> n \<Longrightarrow>
   map_of (map (\<lambda>(k, p). if k = n then (k, withValue v p) else (k, p)) ps) m = map_of ps m"
  by (induction ps) (simp_all split: prod.splits)

lemma map_of_retag_same:
  "map_of (map (\<lambda>(k, p). if k = n then (k, withValue v p) else (k, p)) ps) n
     = map_option (withValue v) (map_of ps n)"
  by (induction ps) (simp_all split: prod.splits)

lemma map_of_setMember_other:
  assumes "m \<noteq> n"
  shows "map_of (setMember n v ps) m = map_of ps m"
proof (cases "n \<in> fst ` set ps")
  case True
  then have "setMember n v ps = map (\<lambda>(k, p). if k = n then (k, withValue v p) else (k, p)) ps"
    by (simp only: setMember_def if_True)
  with assms show ?thesis using map_of_retag [of m n v ps] by simp
next
  case False
  then have "setMember n v ps = ps @ [(n, Data v True True)]"
    by (simp only: setMember_def if_False)
  with assms show ?thesis by (simp add: map_add_def split: option.splits)
qed

lemma map_of_setMember_same:
  assumes "\<forall>g e. map_of ps n \<noteq> Some (Accessor g e)"
  shows "\<exists>w e. map_of (setMember n v ps) n = Some (Data v w e)"
proof (cases "n \<in> fst ` set ps")
  case True
  then have s: "setMember n v ps = map (\<lambda>(k, p). if k = n then (k, withValue v p) else (k, p)) ps"
    by (simp only: setMember_def if_True)
  from True obtain p where p: "map_of ps n = Some p"
    by (cases "map_of ps n") (auto simp: map_of_eq_None_iff)
  with assms obtain old w e where "p = Data old w e" by (cases p) auto
  with p s show ?thesis by (simp add: map_of_retag_same)
next
  case False
  then have "map_of ps n = None" by (simp add: map_of_eq_None_iff)
  then have "map_of (ps @ [(n, Data v True True)]) n = Some (Data v True True)"
    by (simp add: map_add_def)
  with False have "map_of (setMember n v ps) n = Some (Data v True True)"
    by (simp only: setMember_def if_False)
  then show ?thesis by blast
qed

lemma assign_length: "length (assign a n v h) = length h"
  by (simp add: assign_def split: option.splits)

lemma assign_kind: "kind (assign a n v h ! c) = kind (h ! c)"
  by (cases "c = a") (auto simp: assign_def objAt_def split: option.splits if_splits)

lemma assign_getPrototypeOf: "getPrototypeOf (assign a n v h) c = getPrototypeOf h c"
  by (cases "c = a") (auto simp: assign_def getPrototypeOf_def objAt_def split: option.splits)

lemma assign_other:
  "c \<noteq> a \<or> m \<noteq> n \<or> \<not> assignable h a n \<Longrightarrow>
   getOwnPropertyDescriptor (assign a n v h) c m = getOwnPropertyDescriptor h c m"
  by (cases "c = a")
    (auto simp: assign_def getOwnPropertyDescriptor_def ownProps_def objAt_def
      map_of_setMember_other split: option.splits)

lemma assignable_own_data:
  assumes "assignable h a n"
  shows "\<forall>g e. getOwnPropertyDescriptor h a n \<noteq> Some (Accessor g e)"
proof (intro allI notI)
  fix g e
  assume "getOwnPropertyDescriptor h a n = Some (Accessor g e)"
  then have "findProp h a n = Some (Accessor g e)" by (rule findProp_own)
  with assms show False by (simp add: assignable_def)
qed

lemma assign_same:
  assumes "assignable h a n" and "a < length h"
  shows "\<exists>w e. getOwnPropertyDescriptor (assign a n v h) a n = Some (Data v w e)"
proof -
  from assms(1) have "\<forall>g e. getOwnPropertyDescriptor h a n \<noteq> Some (Accessor g e)"
    by (rule assignable_own_data)
  with assms(2) have "\<forall>g e. map_of (props (h ! a)) n \<noteq> Some (Accessor g e)"
    by (simp add: getOwnPropertyDescriptor_def ownProps_def objAt_def)
  then have "\<exists>w e. map_of (setMember n v (props (h ! a))) n = Some (Data v w e)"
    by (rule map_of_setMember_same)
  with assms show ?thesis
    by (simp add: assign_def getOwnPropertyDescriptor_def ownProps_def objAt_def)
qed

lemma append_getPrototypeOf:
  "c < length h \<Longrightarrow> getPrototypeOf (h @ [x]) c = getPrototypeOf h c"
  by (simp add: getPrototypeOf_def objAt_def nth_append)

lemma append_descriptor:
  "c < length h \<Longrightarrow> getOwnPropertyDescriptor (h @ [x]) c m = getOwnPropertyDescriptor h c m"
  by (simp add: getOwnPropertyDescriptor_def ownProps_def objAt_def nth_append)

lemma installed_preserved:
  assumes "kind x = KSpy i"
  shows "preserved obj (if assignable h obj n then {n} else {}) h (assign obj n v h @ [x])"
  unfolding preserved_def
proof (intro conjI allI impI)
  let ?hm = "assign obj n v h"
  have len: "length ?hm = length h" by (rule assign_length)
  show "length h \<le> length (?hm @ [x])" using len by simp
  show "getPrototypeOf (?hm @ [x]) a = getPrototypeOf h a" if "a < length h" for a
    using that len by (simp add: append_getPrototypeOf assign_getPrototypeOf)
  show "getOwnPropertyDescriptor (?hm @ [x]) a m = getOwnPropertyDescriptor h a m"
    if "a < length h" "a \<noteq> obj \<or> m \<notin> (if assignable h obj n then {n} else {})" for a m
  proof -
    from that(2) have "a \<noteq> obj \<or> m \<noteq> n \<or> \<not> assignable h obj n"
      by (auto split: if_splits)
    then have "getOwnPropertyDescriptor ?hm a m = getOwnPropertyDescriptor h a m"
      by (rule assign_other)
    with that(1) len show ?thesis by (simp add: append_descriptor)
  qed
  show "sameKind (kind (h ! a)) (kind ((?hm @ [x]) ! a))" if "a < length h" for a
    using that len by (simp add: nth_append assign_kind sameKind_refl)
  show "\<exists>j. kind ((?hm @ [x]) ! a) = KSpy j" if "length h \<le> a \<and> a < length (?hm @ [x])" for a
  proof -
    from that len have "a = length ?hm" by simp
    with assms show ?thesis by (simp add: nth_append)
  qed
qed

lemma installed_getProp:
  assumes "assignable h obj n" and "obj < length h"
  shows "getProp (assign obj n v h @ [x]) obj n = Inr v"
proof -
  let ?hm = "assign obj n v h"
  from assign_same [OF assms] obtain w e where
    "getOwnPropertyDescriptor ?hm obj n = Some (Data v w e)" by blast
  with assms(2) have "getOwnPropertyDescriptor (?hm @ [x]) obj n = Some (Data v w e)"
    by (simp add: append_descriptor assign_length)
  then have "findProp (?hm @ [x]) obj n = Some (Data v w e)" by (rule findProp_own)
  then show ?thesis by (simp add: getProp_def)
qed

lemma fresh_inherits:
  assumes "props x = []" and "proto x = Some objectPrototype" and "0 < length hm"
  shows "getProp (hm @ [x]) (length hm) n = getProp (hm @ [x]) objectPrototype n"
proof -
  from assms(1) have "getOwnPropertyDescriptor (hm @ [x]) (length hm) n = None"
    by (simp add: getOwnPropertyDescriptor_def ownProps_def objAt_def)
  moreover from assms(2,3) have "getPrototypeOf (hm @ [x]) (length hm) = Some objectPrototype"
    by (simp add: getPrototypeOf_def objAt_def objectPrototype_def)
  ultimately have "findProp (hm @ [x]) (length hm) n = findProp (hm @ [x]) objectPrototype n"
    by (rule findProp_not_own)
  then show ?thesis by (simp add: getProp_def)
qed

lemma spyInfoOf_isSpy: "spyInfoOf h v = Some i \<Longrightarrow> isSpy h v"
  by (auto simp: spyInfoOf_def isSpy_def split: option.splits okind.splits)

lemma applyFunction_effect:
  assumes "isFunction h f"
  shows "\<exists>h2. applyFunction f self as h = (Ret (), h2) \<and> preserved obj {} h h2
           \<and> length h2 = length h"
proof -
  from assms obtain c where f: "f = VRef c" and c: "c < length h"
    and k: "kind (h ! c) = KFunction \<or> (\<exists>i. kind (h ! c) = KSpy i)"
    by (cases f) (auto simp: isFunction_def kindOf_def objAt_def
        split: if_splits option.splits okind.splits)
  from k show ?thesis
  proof
    assume "kind (h ! c) = KFunction"
    with f c have "applyFunction f self as h = (Ret (), h)"
      by (simp add: applyFunction_def objAt_def)
    then show ?thesis by (simp add: preserved_refl)
  next
    assume "\<exists>i. kind (h ! c) = KSpy i"
    then obtain i where i: "kind (h ! c) = KSpy i" ..
    let ?h2 = "h[c := (h ! c)\<lparr>kind :=
                 KSpy (i\<lparr>calls := calls i @ [\<lparr>receiver = self, args = as\<rparr>]\<rparr>)\<rparr>]"
    from f c i have r: "applyFunction f self as h = (Ret (), ?h2)"
      by (simp add: applyFunction_def objAt_def)
    have p: "preserved obj {} h ?h2"
      unfolding preserved_def
    proof (intro conjI allI impI)
      show "length h \<le> length ?h2" by simp
      show "getPrototypeOf ?h2 a = getPrototypeOf h a" if "a < length h" for a
        using that by (cases "a = c") (simp_all add: getPrototypeOf_def objAt_def)
      show "getOwnPropertyDescriptor ?h2 a m = getOwnPropertyDescriptor h a m"
        if "a < length h" for a m
        using that
        by (cases "a = c") (simp_all add: getOwnPropertyDescriptor_def ownProps_def objAt_def)
      show "sameKind (kind (h ! a)) (kind (?h2 ! a))" if "a < length h" for a
        using that i by (cases "a = c") (simp_all add: sameKind_refl)
      show "\<exists>j. kind (?h2 ! a) = KSpy j" if "length h \<le> a \<and> a < length ?h2" for a
      proof -
        from that have "length h \<le> a" and "a < length h" by auto
        then show ?thesis by linarith
      qed
    qed
    from r p show ?thesis by simp
  qed
qed

lemma hasBehavior_kept:
  assumes pres: "preserved obj N h h'"
    and host: "obj = 0 \<Longrightarrow> \<forall>n\<in>N. \<exists>f. getProp h' 0 n = Inr f \<and> isFunction h' f"
    and b: "hasBehavior h b"
  shows "hasBehavior h' b"
proof (cases "planOf b = None \<and> name b \<noteq> ''reset''")
  case False
  then show ?thesis by (auto simp: hasBehavior_def split: option.splits)
next
  case True
  with b obtain f where f: "getProp h 0 (name b) = Inr f" "isFunction h f"
    and other: "name b \<noteq> ''calls''"
    by (auto simp: hasBehavior_def objectPrototype_def split: sum.splits)
  then have zero: "0 < length h" using function_member_of_object by blast
  have "\<exists>f'. getProp h' 0 (name b) = Inr f' \<and> isFunction h' f'"
  proof (cases "obj \<noteq> 0 \<or> name b \<notin> N")
    case True
    with pres zero have "getProp h' 0 (name b) = getProp h 0 (name b)"
      by (rule preserved_getProp_host)
    moreover from pres f(2) have "isFunction h' f" by (rule preserved_isFunction)
    ultimately show ?thesis using f(1) by simp
  next
    case False
    with host show ?thesis by simp
  qed
  with True other show ?thesis by (auto simp: hasBehavior_def objectPrototype_def)
qed

lemma hasBehavior_kept_plain:
  assumes "preserved obj {} h h'" and "hasBehavior h b"
  shows "hasBehavior h' b"
  using assms(1)
proof (rule hasBehavior_kept)
  show "hasBehavior h b" by (rule assms(2))
  show "\<forall>n\<in>{}. \<exists>f. getProp h' 0 n = Inr f \<and> isFunction h' f" by simp
qed

lemma installed_effect:
  assumes x: "kind x = KSpy i" and obj: "obj < length h"
  shows "preserved obj (if assignable h obj m then {m} else {}) h
           (assign obj m (VRef (length h)) h @ [x])
         \<and> (assignable h obj m \<longrightarrow>
              getProp (assign obj m (VRef (length h)) h @ [x]) obj m = Inr (VRef (length h)))
         \<and> spyInfoOf (assign obj m (VRef (length h)) h @ [x]) (VRef (length h)) = Some i
         \<and> (\<forall>c. hasBehavior h c \<longrightarrow> hasBehavior (assign obj m (VRef (length h)) h @ [x]) c)"
proof (intro conjI allI impI)
  let ?h' = "assign obj m (VRef (length h)) h @ [x]"
  let ?N = "if assignable h obj m then {m} else {}"
  from x show p: "preserved obj ?N h ?h'" by (rule installed_preserved)
  show g: "getProp ?h' obj m = Inr (VRef (length h))" if "assignable h obj m"
    using that obj by (rule installed_getProp)
  from x show info: "spyInfoOf ?h' (VRef (length h)) = Some i"
    by (simp add: spyInfoOf_def kindOf_def objAt_def assign_length nth_append)
  then have spy: "isSpy ?h' (VRef (length h))" by (rule spyInfoOf_isSpy)
  show "hasBehavior ?h' c" if "hasBehavior h c" for c
    using p
  proof (rule hasBehavior_kept)
    show "hasBehavior h c" by (rule that)
    assume zero: "obj = 0"
    show "\<forall>n\<in>?N. \<exists>f. getProp ?h' 0 n = Inr f \<and> isFunction ?h' f"
    proof
      fix n assume "n \<in> ?N"
      then have a: "assignable h obj m" and n: "n = m" by (auto split: if_splits)
      from a have "getProp ?h' obj m = Inr (VRef (length h))" by (rule g)
      moreover from spy have "isFunction ?h' (VRef (length h))"
        by (auto simp: isSpy_def isFunction_def split: option.splits okind.splits)
      ultimately show "\<exists>f. getProp ?h' 0 n = Inr f \<and> isFunction ?h' f"
        using zero n by simp
    qed
  qed
qed

lemma configure_plan:
  "planOf b = Some pl \<Longrightarrow>
   configure (VRef (length hm)) b (hm @ [freshSpy v]) =
     (Ret (), hm @ [(freshSpy v)\<lparr>kind := KSpy \<lparr>calls = [], spyPlan = pl, originalValue = v\<rparr>\<rparr>])"
  by (simp add: configure_def objAt_def freshSpy_def)

lemma configure_reset:
  assumes "planOf b = None" and "name b = ''reset''"
  shows "configure (VRef (length hm)) b (hm @ [freshSpy v]) = (Ret (), hm @ [freshSpy v])"
  using assms by (simp add: configure_def spyReset_def objAt_def freshSpy_def)

lemma configure_inherited:
  assumes "planOf b = None" and "0 < length hm" and "hasBehavior (hm @ [freshSpy v]) b"
  shows "\<exists>h2. configure (VRef (length hm)) b (hm @ [freshSpy v]) = (Ret (), h2)
           \<and> preserved obj {} (hm @ [freshSpy v]) h2 \<and> length h2 = Suc (length hm)"
proof (cases "name b = ''reset''")
  case True
  with assms(1) have "configure (VRef (length hm)) b (hm @ [freshSpy v])
                        = (Ret (), hm @ [freshSpy v])"
    by (rule configure_reset)
  then show ?thesis by (simp add: preserved_refl)
next
  case False
  let ?h1 = "hm @ [freshSpy v]"
  from assms(1,3) False obtain f where f: "getProp ?h1 objectPrototype (name b) = Inr f"
    and fn: "isFunction ?h1 f" and other: "name b \<noteq> ''calls''"
    by (auto simp: hasBehavior_def split: sum.splits)
  have "getProp ?h1 (length hm) (name b) = getProp ?h1 objectPrototype (name b)"
    using assms(2) by (intro fresh_inherits) (simp_all add: freshSpy_def)
  with f have read: "getProp ?h1 (length hm) (name b) = Inr f" by simp
  from applyFunction_effect [OF fn, of "VRef (length hm)" "arguments b" obj] obtain h2 where
    ap: "applyFunction f (VRef (length hm)) (arguments b) ?h1 = (Ret (), h2)"
    and p: "preserved obj {} ?h1 h2" and len: "length h2 = length ?h1"
    by (elim exE conjE)
  from assms(1) False other read ap have "configure (VRef (length hm)) b ?h1 = (Ret (), h2)"
    by (simp add: configure_def objAt_def freshSpy_def)
  with p len show ?thesis by simp
qed

lemma spyIf_not_plain:
  "getProp h obj n = Inr v \<Longrightarrow> \<not> (isFunction h v \<and> \<not> isSpy h v) \<Longrightarrow>
   spyIf obj n b h = (Ret v, h)"
  by (auto simp: spyIf_def)

lemma spyIf_plain_effect:
  assumes v: "getProp h obj m = Inr v" and f: "isFunction h v" and ns: "\<not> isSpy h v"
    and beh: "\<forall>bb. b = Some bb \<longrightarrow> hasBehavior h bb"
  shows "\<exists>h'. spyIf obj m b h = (Ret (VRef (length h)), h')
           \<and> preserved obj (if assignable h obj m then {m} else {}) h h'
           \<and> length h' = Suc (length h)
           \<and> (b = None \<longrightarrow> map_option spyPlan (spyInfoOf h' (VRef (length h))) = Some Stub)
           \<and> (assignable h obj m \<longrightarrow> getProp h' obj m = Inr (VRef (length h)))
           \<and> (\<forall>c. hasBehavior h c \<longrightarrow> hasBehavior h' c)"
proof -
  let ?N = "if assignable h obj m then {m} else {}"
  let ?hm = "assign obj m (VRef (length h)) h"
  let ?h1 = "?hm @ [freshSpy v]"
  from v f have obj: "obj < length h" by (rule function_member_of_object)
  have len: "length ?hm = length h" by (rule assign_length)
  from v have on: "spyOn obj m h = (Ret (VRef (length h)), ?h1)"
    by (simp add: spyOn_def)
  have shape: "kind (freshSpy v) = KSpy \<lparr>calls = [], spyPlan = Stub, originalValue = v\<rparr>"
    by (simp add: freshSpy_def)
  from installed_effect [OF shape obj, of m]
  have p1: "preserved obj ?N h ?h1"
    and g1: "assignable h obj m \<longrightarrow> getProp ?h1 obj m = Inr (VRef (length h))"
    and i1: "spyInfoOf ?h1 (VRef (length h)) =
               Some \<lparr>calls = [], spyPlan = Stub, originalValue = v\<rparr>"
    and b1: "\<forall>c. hasBehavior h c \<longrightarrow> hasBehavior ?h1 c"
    by simp_all
  show ?thesis
  proof (cases b)
    case None
    with v f ns on have "spyIf obj m b h = (Ret (VRef (length h)), ?h1)"
      by (simp add: spyIf_def)
    moreover have "length ?h1 = Suc (length h)" using len by simp
    moreover from i1 have "map_option spyPlan (spyInfoOf ?h1 (VRef (length h))) = Some Stub"
      by simp
    ultimately show ?thesis using p1 g1 b1 by blast
  next
    case (Some bb)
    with beh have hb: "hasBehavior h bb" by simp
    show ?thesis
    proof (cases "planOf bb")
      case (Some pl)
      let ?x = "(freshSpy v)\<lparr>kind := KSpy \<lparr>calls = [], spyPlan = pl, originalValue = v\<rparr>\<rparr>"
      let ?h2 = "?hm @ [?x]"
      from Some have "configure (VRef (length ?hm)) bb ?h1 = (Ret (), ?h2)"
        by (rule configure_plan)
      then have c: "configure (VRef (length h)) bb ?h1 = (Ret (), ?h2)"
        by (simp only: len)
      from v f ns on \<open>b = Some bb\<close> c
      have r: "spyIf obj m b h = (Ret (VRef (length h)), ?h2)"
        by (simp add: spyIf_def)
      have shape2: "kind ?x = KSpy \<lparr>calls = [], spyPlan = pl, originalValue = v\<rparr>"
        by simp
      from installed_effect [OF shape2 obj, of m]
      have "preserved obj ?N h ?h2"
        and "assignable h obj m \<longrightarrow> getProp ?h2 obj m = Inr (VRef (length h))"
        and "\<forall>c. hasBehavior h c \<longrightarrow> hasBehavior ?h2 c"
        by simp_all
      moreover have "length ?h2 = Suc (length h)" using len by simp
      moreover have "b = None \<longrightarrow>
          map_option spyPlan (spyInfoOf ?h2 (VRef (length h))) = Some Stub"
        using \<open>b = Some bb\<close> by simp
      ultimately show ?thesis using r by blast
    next
      case None
      from obj len have pos: "0 < length ?hm" by linarith
      from b1 hb have hb1: "hasBehavior ?h1 bb" by simp
      from configure_inherited [OF None pos hb1, of obj] obtain h2 where
        c: "configure (VRef (length ?hm)) bb ?h1 = (Ret (), h2)"
        and p2: "preserved obj {} ?h1 h2" and l2: "length h2 = Suc (length ?hm)"
        by (elim exE conjE)
      from c have c': "configure (VRef (length h)) bb ?h1 = (Ret (), h2)"
        by (simp only: len)
      from v f ns on \<open>b = Some bb\<close> c'
      have r: "spyIf obj m b h = (Ret (VRef (length h)), h2)"
        by (simp add: spyIf_def)
      from preserved_trans [OF p1 p2] have p: "preserved obj ?N h h2" by simp
      from l2 len have l: "length h2 = Suc (length h)" by simp
      from obj len have obj1: "obj < length ?h1" by simp
      have same: "getProp h2 obj m = getProp ?h1 obj m"
        using p2 obj1 by (rule preserved_getProp) simp
      with g1 have g: "assignable h obj m \<longrightarrow> getProp h2 obj m = Inr (VRef (length h))"
        by simp
      have kept: "hasBehavior h2 c" if "hasBehavior h c" for c
      proof -
        from b1 that have "hasBehavior ?h1 c" by simp
        with p2 show ?thesis by (rule hasBehavior_kept_plain)
      qed
      have "b = None \<longrightarrow> map_option spyPlan (spyInfoOf h2 (VRef (length h))) = Some Stub"
        using \<open>b = Some bb\<close> by simp
      with r p l g kept show ?thesis by blast
    qed
  qed
qed

lemma new_object_is_spy:
  assumes "preserved obj N h h'" and "length h' = Suc (length h)"
  shows "isSpy h' (VRef (length h))"
proof -
  from assms(2) have "length h \<le> length h" "length h < length h'" by simp_all
  with assms(1) obtain i where "kind (h' ! length h) = KSpy i"
    using preserved_new_spy [of obj N h h' "length h"] by blast
  with assms(2) show ?thesis by (simp add: isSpy_def kindOf_def objAt_def)
qed

lemma spied_member_kept:
  assumes "preserved obj M h h1" and "obj < length h" and "m \<notin> M"
    and "getProp h obj m = Inr sp" and "isSpy h sp"
    and "P \<longrightarrow> map_option spyPlan (spyInfoOf h sp) = Some Stub"
  shows "getProp h1 obj m = Inr sp \<and> isSpy h1 sp
         \<and> (P \<longrightarrow> map_option spyPlan (spyInfoOf h1 sp) = Some Stub)"
proof (intro conjI impI)
  from assms(1,2,3) have "getProp h1 obj m = getProp h obj m" by (rule preserved_getProp)
  with assms(4) show "getProp h1 obj m = Inr sp" by simp
  from assms(1,5) show "isSpy h1 sp" by (rule preserved_isSpy)
  assume P
  with assms(6) have "map_option spyPlan (spyInfoOf h sp) = Some Stub" by simp
  with assms(1) show "map_option spyPlan (spyInfoOf h1 sp) = Some Stub"
    by (rule preserved_plan)
qed

section \<open>An induction rule for the walk\<close>

text \<open>
  The state of a walk changes only where a name is dispatched, and a name is
  dispatched only after \<^verbatim>\<open>foundProps\<close> gave a falsy answer for it, and in the
  descriptor pass only after its descriptor read as writable. So a property of the
  state that every such dispatch keeps holds throughout the walk, however it ends.
\<close>

lemma tableGet_falsy_fresh:
  "tableGet h own n = Inr seen \<Longrightarrow> \<not> truthy seen \<Longrightarrow> n \<notin> set own"
  by (auto simp: tableGet_def split: if_splits)

lemma tablePut_fresh:
  "n \<notin> set own \<Longrightarrow> tablePut h own n = Inr own' \<Longrightarrow> own' = own @ [n]"
  by (auto simp: tablePut_def split: option.splits property.splits if_splits)

lemma forInPass_rule:
  assumes inv: "I s"
    and step: "\<And>s n seen via. I s \<Longrightarrow> tableGet (wheap s) (found s) n = Inr seen \<Longrightarrow>
                   \<not> truthy seen \<Longrightarrow>
                   (via = Descriptor \<longrightarrow> descriptorWritable (wheap s) cur n = Inr True) \<Longrightarrow>
                   I (snd (dispatch via visit cur n s))"
  shows "I (snd (forInPass visit cur keys s))"
  using inv
proof (induction keys arbitrary: s)
  case Nil
  then show ?case by simp
next
  case (Cons i rest)
  show ?case
  proof (cases "tableGet (wheap s) (found s) i")
    case (Inl e)
    with Cons.prems show ?thesis by simp
  next
    case (Inr seen)
    show ?thesis
    proof (cases "truthy seen")
      case True
      with Inr Cons show ?thesis by simp
    next
      case False
      show ?thesis
      proof (cases "getProp (wheap s) cur i")
        case (Inl e)
        with Inr False Cons.prems show ?thesis by simp
      next
        case r: (Inr pv)
        obtain st s' where d: "dispatch ForIn visit cur i s = (st, s')"
          by (cases "dispatch ForIn visit cur i s")
        have "ForIn = Descriptor \<longrightarrow> descriptorWritable (wheap s) cur i = Inr True"
          by simp
        from step [OF Cons.prems Inr False this] d have "I s'" by simp
        with Cons.IH have "I (snd (forInPass visit cur rest s'))" by simp
        with Inr False r d \<open>I s'\<close> show ?thesis
          by (cases st) simp_all
      qed
    qed
  qed
qed

lemma descriptorStep_rule:
  assumes inv: "I s"
    and step: "\<And>s n seen via. I s \<Longrightarrow> tableGet (wheap s) (found s) n = Inr seen \<Longrightarrow>
                   \<not> truthy seen \<Longrightarrow>
                   (via = Descriptor \<longrightarrow> descriptorWritable (wheap s) cur n = Inr True) \<Longrightarrow>
                   I (snd (dispatch via visit cur n s))"
  shows "I (snd (descriptorStep visit cur propName s))"
proof (cases "getProp (wheap s) cur propName")
  case (Inl e)
  with inv show ?thesis by (simp add: descriptorStep_def)
next
  case r: (Inr pv)
  show ?thesis
  proof (cases "tableGet (wheap s) (found s) propName")
    case (Inl e)
    with r inv show ?thesis by (simp add: descriptorStep_def)
  next
    case (Inr seen)
    show ?thesis
    proof (cases "descriptorWritable (wheap s) cur propName")
      case (Inl e)
      with r Inr inv show ?thesis by (simp add: descriptorStep_def)
    next
      case w: (Inr writable)
      show ?thesis
      proof (cases "propName \<noteq> ''prototype'' \<and> \<not> truthy seen \<and> writable")
        case True
        then have falsy: "\<not> truthy seen"
          and "Descriptor = Descriptor \<longrightarrow>
                 descriptorWritable (wheap s) cur propName = Inr True"
          using w by simp_all
        from step [OF inv Inr this]
        have "I (snd (dispatch Descriptor visit cur propName s))" .
        with r Inr w True show ?thesis by (simp add: descriptorStep_def)
      next
        case False
        with r Inr w inv show ?thesis by (auto simp: descriptorStep_def)
      qed
    qed
  qed
qed

lemma descriptorPass_rule:
  assumes inv: "I s"
    and step: "\<And>s n seen via. I s \<Longrightarrow> tableGet (wheap s) (found s) n = Inr seen \<Longrightarrow>
                   \<not> truthy seen \<Longrightarrow>
                   (via = Descriptor \<longrightarrow> descriptorWritable (wheap s) cur n = Inr True) \<Longrightarrow>
                   I (snd (dispatch via visit cur n s))"
  shows "I (snd (descriptorPass visit cur ps s))"
  using inv
proof (induction ps arbitrary: s)
  case Nil
  then show ?case by simp
next
  case (Cons p rest)
  obtain st s' where d: "descriptorStep visit cur p s = (st, s')"
    by (cases "descriptorStep visit cur p s")
  have "I (snd (descriptorStep visit cur p s))"
    using Cons.prems by (rule descriptorStep_rule) (rule step)
  with d have "I s'" by simp
  with Cons.IH have "I (snd (descriptorPass visit cur rest s'))" by simp
  with d \<open>I s'\<close> show ?case by (cases st) simp_all
qed

lemma walkLevel_rule:
  assumes inv: "I s"
    and step: "\<And>s n seen via. I s \<Longrightarrow> tableGet (wheap s) (found s) n = Inr seen \<Longrightarrow>
                   \<not> truthy seen \<Longrightarrow>
                   (via = Descriptor \<longrightarrow> descriptorWritable (wheap s) cur n = Inr True) \<Longrightarrow>
                   I (snd (dispatch via visit cur n s))"
  shows "I (snd (walkLevel visit cur s))"
proof -
  obtain st s1 where f: "forInPass visit cur (forInKeys (wheap s) cur) s = (st, s1)"
    by (cases "forInPass visit cur (forInKeys (wheap s) cur) s")
  have "I (snd (forInPass visit cur (forInKeys (wheap s) cur) s))"
    using inv by (rule forInPass_rule) (rule step)
  with f have "I s1" by simp
  have "\<And>ps. I (snd (descriptorPass visit cur ps s1))"
    using \<open>I s1\<close> by (rule descriptorPass_rule) (rule step)
  with f \<open>I s1\<close> show ?thesis
    by (cases st) (simp_all add: walkLevel_def split: sum.splits)
qed

lemma walkLoop_rule:
  assumes inv: "I s"
    and step: "\<And>s cur n seen via. I s \<Longrightarrow> tableGet (wheap s) (found s) n = Inr seen \<Longrightarrow>
                   \<not> truthy seen \<Longrightarrow>
                   (via = Descriptor \<longrightarrow> descriptorWritable (wheap s) cur n = Inr True) \<Longrightarrow>
                   I (snd (dispatch via visit cur n s))"
  shows "I (snd (walkLoop fuel visit cur s))"
  using inv
proof (induction fuel arbitrary: cur s)
  case 0
  then show ?case by simp
next
  case (Suc k)
  show ?case
  proof (cases cur)
    case (VRef a)
    obtain st s' where l: "walkLevel visit a s = (st, s')"
      by (cases "walkLevel visit a s")
    have "I (snd (walkLevel visit a s))"
      using Suc.prems by (rule walkLevel_rule) (rule step)
    with l have "I s'" by simp
    with Suc.IH have "\<And>c. I (snd (walkLoop k visit c s'))" by simp
    with VRef l \<open>I s'\<close> show ?thesis
      by (cases st) (simp_all split: sum.splits)
  qed (use Suc.prems in simp_all)
qed

section \<open>Resetting all spies except some\<close>

text \<open>
  Claim C1, evaluated on \<open>spiedStore\<close>: \<^verbatim>\<open>resetAllExcept(O, ['foo'])\<close> returns \<open>O\<close>,
  and afterwards the spy \<^verbatim>\<open>O.foo\<close>, which the exception list names, has lost its
  three recorded calls, exactly as the spy \<^verbatim>\<open>O.bar\<close>, which the list does not name.
\<close>

theorem resetAllExcept_resets_excepted_spy:
  "fst (resetAllExcept 2 2 (Many [''foo'']) spiedStore) = Ret (VRef 2)
   \<and> map_option calls (spyInfoOf spiedStore (VRef 3)) =
       Some [\<lparr>receiver = VRef 2, args = [VNum 1, VNum 2]\<rparr>,
             \<lparr>receiver = VRef 2, args = [VNum 42, VNum 3]\<rparr>,
             \<lparr>receiver = VRef 2, args = [VNum 5]\<rparr>]
   \<and> map_option calls
         (spyInfoOf (snd (resetAllExcept 2 2 (Many [''foo'']) spiedStore)) (VRef 3)) = Some []
   \<and> map_option calls
         (spyInfoOf (snd (resetAllExcept 2 2 (Many [''foo'']) spiedStore)) (VRef 4)) = Some []"
  by code_simp

section \<open>Properties that cannot be read\<close>

text \<open>
  Claim C2, evaluated on \<open>restrictedStore\<close>: the walk over the function \<^verbatim>\<open>F\<close>, whose
  own member \<^verbatim>\<open>caller\<close> throws when read, ends with that exception. The filter of
  lines 177-184 keeps \<^verbatim>\<open>caller\<close> (its callback answers \<^verbatim>\<open>true\<close> from the \<^verbatim>\<open>catch\<close>
  block), and line 198 then reads the member outside any \<^verbatim>\<open>try\<close>. The visitor was
  never invoked, and the level \<^verbatim>\<open>F.prototype\<close> with its method \<^verbatim>\<open>run\<close> was never
  reached.
\<close>

theorem walk_propagates_inaccessible_read:
  "collectOwnNames restrictedStore 2 = [''caller'']
   \<and> fst (forEachWritableProperties 3 2 idleVisitor restrictedStore)
       = Throw (Thrown (VStr ''restricted''))
   \<and> visits (snd (forEachWritableProperties 3 2 idleVisitor restrictedStore)) = []"
  by code_simp

section \<open>Properties that are not writable\<close>




section \<open>The walk visits a name at most once\<close>

text \<open>
  Claim C4. In the log of one walk no property name occurs twice: whatever the
  target, the visitor and the store, and however far the walk gets (to its end, to
  an exception, or to the bound on the iterations of its loop), the visitor has
  been invoked at most once for each name, also for a name defined at several
  levels.
\<close>

theorem visitor_once_per_name:
  "distinct (map snd (visits (snd (forEachWritableProperties fuel obj visit h))))"
proof -
  let ?I = "\<lambda>s. distinct (map snd (visits s)) \<and> snd ` set (visits s) \<subseteq> set (found s)"
  have step: "?I (snd (dispatch via visit cur n s))"
    if inv: "?I s" and get: "tableGet (wheap s) (found s) n = Inr seen" and "\<not> truthy seen"
    for s cur n seen via
  proof -
    from get that(3) have fresh: "n \<notin> set (found s)" by (rule tableGet_falsy_fresh)
    show ?thesis
    proof (cases "tablePut (wheap s) (found s) n")
      case (Inl e)
      with inv show ?thesis by (simp add: dispatch_def)
    next
      case (Inr found')
      with fresh have "found' = found s @ [n]" by (rule tablePut_fresh)
      with Inr inv fresh show ?thesis
        by (auto simp: dispatch_def split: prod.splits)
    qed
  qed
  have "?I \<lparr>wheap = h, found = [], visits = [], moments = []\<rparr>" by simp
  then have "?I (snd (forEachWritableProperties fuel obj visit h))"
    unfolding forEachWritableProperties_def
    by (rule walkLoop_rule [where I = ?I]) (rule step)
  then show ?thesis by simp
qed

theorem visitor_once_per_name_witness:
  "visits (snd (forEachWritableProperties 3 2 idleVisitor constructorStore))
     = [(2, ''run''), (3, ''stop'')]
   \<and> distinct (map snd (visits (snd (forEachWritableProperties 3 2 idleVisitor constructorStore))))"
proof -
  have "visits (snd (forEachWritableProperties 3 2 idleVisitor constructorStore))
          = [(2, ''run''), (3, ''stop'')]"
    by code_simp
  with visitor_once_per_name [of 3 2 idleVisitor constructorStore] show ?thesis by simp
qed

section \<open>Spying all methods except some\<close>

lemma spyAllExcept_on_ordinary_object:
  "fst (spyAllExcept 3 2 (Many [''foo'']) None methodsStore) = Ret (VRef 2)
   \<and> getProp (snd (spyAllExcept 3 2 (Many [''foo'']) None methodsStore)) 2 ''foo''
       = Inr (VRef 3)
   \<and> \<not> isSpy (snd (spyAllExcept 3 2 (Many [''foo'']) None methodsStore)) (VRef 3)
   \<and> getProp (snd (spyAllExcept 3 2 (Many [''foo'']) None methodsStore)) 2 ''bar''
       = Inr (VRef 6)
   \<and> isSpy (snd (spyAllExcept 3 2 (Many [''foo'']) None methodsStore)) (VRef 6)
   \<and> getProp (snd (spyAllExcept 3 2 (Many [''foo'']) None methodsStore)) 2 ''baz''
       = Inr (VRef 7)
   \<and> isSpy (snd (spyAllExcept 3 2 (Many [''foo'']) None methodsStore)) (VRef 7)"
  by code_simp

text \<open>
  Claim C5, evaluated on \<open>bareStore\<close>: the object \<open>O\<close> has the function-valued
  member \<^verbatim>\<open>foo\<close>, and \<^verbatim>\<open>spyAllExcept(O, ['foo'])\<close> does not return \<open>O\<close> but raises a
  \<^verbatim>\<open>TypeError\<close>. The object has no \<^verbatim>\<open>prototype\<close> member, its prototype is \<^verbatim>\<open>null\<close>,
  which is not \<^verbatim>\<open>Object.prototype\<close>, and line 189 asks for the own names of \<^verbatim>\<open>null\<close>:
  the test of line 188 guards the fold against \<^verbatim>\<open>Object.prototype\<close> only. (On the
  ordinary object of \<open>methodsStore\<close> the call does what the claim says, as the lemma
  above shows.)
\<close>

theorem spyAllExcept_raises_on_null_prototype:
  "getProp bareStore 2 ''foo'' = Inr (VRef 1) \<and> isFunction bareStore (VRef 1)
   \<and> getPrototypeOf bareStore 2 = None
   \<and> spyAllExcept 3 2 (Many [''foo'']) None bareStore = (Throw TypeError, bareStore)"
  by code_simp

section \<open>Idempotence of the conditional spy\<close>

text \<open>
  Claim C6, as the code has it. Let the member \<open>obj[method]\<close> be readable, and, in
  case it is a function that is not a spy, let an assignment to the member take
  effect and let the behaviour be absent or name a function that a spy has. Then
  \<open>spyIf\<close> returns, and a second call right after it returns the same value and
  leaves the store as the first call left it, so no second spy is made. When the
  member is already a spy or is not a function, the value returned is the member's
  value and the first call leaves the store untouched as well; otherwise the first
  call allocates exactly one object, the spy, whose handle it returns and which is
  the member's new value.
\<close>

theorem spyIf_twice:
  assumes "getProp h obj method = Inr v"
    and "isFunction h v \<and> \<not> isSpy h v \<longrightarrow>
           assignable h obj method \<and> (\<forall>b. behavior = Some b \<longrightarrow> hasBehavior h b)"
  shows "\<exists>spy h1. spyIf obj method behavior h = (Ret spy, h1)
           \<and> spyIf obj method behavior h1 = (Ret spy, h1)
           \<and> (if isFunction h v \<and> \<not> isSpy h v
                then spy = VRef (length h) \<and> length h1 = Suc (length h)
                     \<and> isSpy h1 spy \<and> getProp h1 obj method = Inr spy
                else spy = v \<and> h1 = h)"
proof (cases "isFunction h v \<and> \<not> isSpy h v")
  case False
  with assms(1) have "spyIf obj method behavior h = (Ret v, h)"
    by (rule spyIf_not_plain)
  with False show ?thesis by auto
next
  case True
  then have f: "isFunction h v" and ns: "\<not> isSpy h v" by simp_all
  from True assms(2) have a: "assignable h obj method"
    and beh: "\<forall>b. behavior = Some b \<longrightarrow> hasBehavior h b"
    by simp_all
  from spyIf_plain_effect [OF assms(1) f ns beh] obtain h1 where
    r: "spyIf obj method behavior h = (Ret (VRef (length h)), h1)"
    and p: "preserved obj (if assignable h obj method then {method} else {}) h h1"
    and l: "length h1 = Suc (length h)"
    and g: "assignable h obj method \<longrightarrow> getProp h1 obj method = Inr (VRef (length h))"
    by (elim exE conjE)
  from g a have g': "getProp h1 obj method = Inr (VRef (length h))" by simp
  from l have "length h \<le> length h" "length h < length h1" by simp_all
  with p obtain i where "kind (h1 ! length h) = KSpy i"
    using preserved_new_spy [of obj _ h h1 "length h"] by blast
  with l have spy: "isSpy h1 (VRef (length h))"
    by (simp add: isSpy_def kindOf_def objAt_def)
  with g' have "spyIf obj method behavior h1 = (Ret (VRef (length h)), h1)"
    by (simp add: spyIf_not_plain)
  with r l g' spy True show ?thesis by simp
qed

theorem spyIf_twice_witness:
  "getProp methodsStore 2 ''baz'' = Inr (VRef 5)
   \<and> isFunction methodsStore (VRef 5) \<and> \<not> isSpy methodsStore (VRef 5)
   \<and> assignable methodsStore 2 ''baz''
   \<and> hasBehavior methodsStore \<lparr>name = ''toString'', arguments = []\<rparr>
   \<and> (\<exists>h1. spyIf 2 ''baz'' (Some \<lparr>name = ''toString'', arguments = []\<rparr>) methodsStore
              = (Ret (VRef 6), h1)
          \<and> spyIf 2 ''baz'' (Some \<lparr>name = ''toString'', arguments = []\<rparr>) h1
              = (Ret (VRef 6), h1)
          \<and> length h1 = 7 \<and> isSpy h1 (VRef 6) \<and> getProp h1 2 ''baz'' = Inr (VRef 6))"
proof -
  let ?b = "\<lparr>name = ''toString'', arguments = []\<rparr>"
  have g: "getProp methodsStore 2 ''baz'' = Inr (VRef 5)" by code_simp
  have f: "isFunction methodsStore (VRef 5)" by code_simp
  have n: "\<not> isSpy methodsStore (VRef 5)" by code_simp
  have a: "assignable methodsStore 2 ''baz''" by code_simp
  have b: "hasBehavior methodsStore ?b" by code_simp
  have l: "length methodsStore = 6" by code_simp
  from a b have side: "isFunction methodsStore (VRef 5) \<and> \<not> isSpy methodsStore (VRef 5) \<longrightarrow>
      assignable methodsStore 2 ''baz''
      \<and> (\<forall>c. Some ?b = Some c \<longrightarrow> hasBehavior methodsStore c)"
    by simp
  from spyIf_twice [OF g side] f n l g a b show ?thesis by auto
qed

text \<open>
  Claim C6 as stated fails in three ways. On \<open>restrictedStore\<close> the member
  \<^verbatim>\<open>caller\<close> cannot be read, and \<^verbatim>\<open>spyIf(F, 'caller')\<close> returns nothing: it ends with
  the exception of the read in line 17. On \<open>methodsStore\<close>, with a behaviour whose
  name no spy has, the first call installs the spy and then ends with the
  \<^verbatim>\<open>TypeError\<close> of line 23, while the second call returns that spy. On \<open>frozenStore\<close>
  the member \<^verbatim>\<open>version\<close> is a read-only function: the assignment of the installer
  has no effect, the member stays the function, and each of the two calls makes and
  returns a spy of its own.
\<close>

theorem spyIf_not_idempotent:
  "spyIf 2 ''caller'' None restrictedStore
     = (Throw (Thrown (VStr ''restricted'')), restrictedStore)
   \<and> fst (spyIf 2 ''foo'' (Some bogusBehavior) methodsStore) = Throw TypeError
   \<and> spyIf 2 ''foo'' (Some bogusBehavior)
         (snd (spyIf 2 ''foo'' (Some bogusBehavior) methodsStore))
       = (Ret (VRef 6), snd (spyIf 2 ''foo'' (Some bogusBehavior) methodsStore))
   \<and> fst (spyIf 2 ''version'' None frozenStore) = Ret (VRef 3)
   \<and> fst (spyIf 2 ''version'' None (snd (spyIf 2 ''version'' None frozenStore))) = Ret (VRef 4)
   \<and> getProp (snd (spyIf 2 ''version'' None (snd (spyIf 2 ''version'' None frozenStore))))
         2 ''version'' = Inr (VRef 1)"
  by code_simp

section \<open>Finding a recorded call\<close>

lemma indexOfFrom_absent: "0 \<le> k \<Longrightarrow> (indexOfFrom xs v k = - 1) = (v \<notin> set xs)"
proof (induction xs arbitrary: k)
  case Nil
  then show ?case by simp
next
  case (Cons x xs)
  from Cons.prems have "0 \<le> k + 1" by simp
  from Cons.IH [OF this] Cons.prems show ?case by auto
qed

lemma indexOf_absent: "(indexOf xs v = - 1) = (v \<notin> set xs)"
  by (simp add: indexOf_def indexOfFrom_absent)

lemma getCallLoop_find:
  "getCallLoop cs arg i = find (\<lambda>c. arg \<in> set (args c)) (drop i cs)"
proof (induction cs arg i rule: getCallLoop.induct)
  case (1 cs arg i)
  show ?case
  proof (cases "i < length cs")
    case True
    then have d: "drop i cs = cs ! i # drop (Suc i) cs"
      by (simp add: Cons_nth_drop_Suc)
    show ?thesis
    proof (cases "arg \<in> set (args (cs ! i))")
      case True
      with \<open>i < length cs\<close> d show ?thesis
        by (subst getCallLoop.simps) (simp add: indexOf_absent)
    next
      case False
      with \<open>i < length cs\<close> have "getCallLoop cs arg i = getCallLoop cs arg (Suc i)"
        by (subst getCallLoop.simps) (simp add: indexOf_absent)
      also have "\<dots> = find (\<lambda>c. arg \<in> set (args c)) (drop (Suc i) cs)"
        using "1.IH" True False by (simp add: indexOf_absent)
      finally show ?thesis using d False by simp
    qed
  next
    case False
    then show ?thesis by (subst getCallLoop.simps) simp
  qed
qed

text \<open>
  Claim C7. When \<open>obj[method]\<close> is a spy, \<open>getCallWithArg\<close> returns the first call
  record, in recording order, whose argument sequence contains a value equal to
  \<open>arg\<close>, and \<^verbatim>\<open>undefined\<close> (here \<open>None\<close>) when no record has one, in particular when
  the list is empty; the store, and with it the call list, is left as it was.
  \<open>find\<close> is the library's search for the first element of a list that satisfies
  a predicate.
\<close>

theorem getCallWithArg_first_match:
  assumes "getProp h obj method = Inr spy" and "spyInfoOf h spy = Some i"
  shows "getCallWithArg obj method arg h =
           (Ret (find (\<lambda>c. arg \<in> set (args c)) (calls i)), h)"
  using assms by (simp add: getCallWithArg_def getCallLoop_find)

theorem getCallWithArg_first_match_witness:
  "getProp spiedStore 2 ''foo'' = Inr (VRef 3)
   \<and> getCallWithArg 2 ''foo'' (VNum 42) spiedStore =
       (Ret (Some \<lparr>receiver = VRef 2, args = [VNum 42, VNum 3]\<rparr>), spiedStore)
   \<and> getProp spiedStore 2 ''bar'' = Inr (VRef 4)
   \<and> getCallWithArg 2 ''bar'' (VNum 42) spiedStore = (Ret None, spiedStore)"
proof -
  have foo: "getProp spiedStore 2 ''foo'' = Inr (VRef 3)" by code_simp
  have fooInfo: "spyInfoOf spiedStore (VRef 3) =
      Some \<lparr>calls = [\<lparr>receiver = VRef 2, args = [VNum 1, VNum 2]\<rparr>,
                     \<lparr>receiver = VRef 2, args = [VNum 42, VNum 3]\<rparr>,
                     \<lparr>receiver = VRef 2, args = [VNum 5]\<rparr>],
            spyPlan = Stub, originalValue = VRef 1\<rparr>"
    by code_simp
  have bar: "getProp spiedStore 2 ''bar'' = Inr (VRef 4)" by code_simp
  have barInfo: "spyInfoOf spiedStore (VRef 4) =
      Some \<lparr>calls = [\<lparr>receiver = VRef 2, args = [VNum 1]\<rparr>,
                     \<lparr>receiver = VRef 2, args = [VNum 2]\<rparr>],
            spyPlan = Stub, originalValue = VRef 1\<rparr>"
    by code_simp
  show ?thesis
    using getCallWithArg_first_match [OF foo fooInfo, of "VNum 42"]
      getCallWithArg_first_match [OF bar barInfo, of "VNum 42"] foo bar
    by simp
qed

section \<open>Resetting named spies\<close>

lemma resetOnly_refl: "resetOnly h h"
  by (simp add: resetOnly_def)

lemma resetOnly_getPrototypeOf:
  "resetOnly h h' \<Longrightarrow> getPrototypeOf h' a = getPrototypeOf h a"
  by (auto simp: resetOnly_def getPrototypeOf_def objAt_def)

lemma resetOnly_descriptor:
  "resetOnly h h' \<Longrightarrow> getOwnPropertyDescriptor h' a n = getOwnPropertyDescriptor h a n"
  by (auto simp: resetOnly_def getOwnPropertyDescriptor_def ownProps_def objAt_def)

lemma resetOnly_getProp: "resetOnly h h' \<Longrightarrow> getProp h' a n = getProp h a n"
  by (rule getProp_cong) (simp_all add: resetOnly_getPrototypeOf resetOnly_descriptor)

lemma resetOnly_isSpy: "resetOnly h h' \<Longrightarrow> isSpy h' v = isSpy h v"
proof (cases v)
  case (VRef a)
  assume r: "resetOnly h h'"
  show ?thesis
  proof (cases "a < length h")
    case True
    with r have "kind (h' ! a) = kind (h ! a)
               \<or> (\<exists>i. kind (h ! a) = KSpy i
                       \<and> kind (h' ! a) = KSpy (i\<lparr>calls := [], spyPlan := Stub\<rparr>))"
      by (simp add: resetOnly_def)
    with True r VRef show ?thesis
      by (auto simp: isSpy_def kindOf_def objAt_def resetOnly_def)
  next
    case False
    with r VRef show ?thesis by (simp add: isSpy_def kindOf_def objAt_def resetOnly_def)
  qed
qed (simp_all add: isSpy_def kindOf_def)

lemma resetOnly_non_spy:
  assumes "resetOnly h h'" and "\<not> isSpy h (VRef a)"
  shows "objAt h' a = objAt h a"
proof (cases "a < length h")
  case True
  with assms(1) have p: "props (h' ! a) = props (h ! a)" "proto (h' ! a) = proto (h ! a)"
    and k: "kind (h' ! a) = kind (h ! a)
               \<or> (\<exists>i. kind (h ! a) = KSpy i
                       \<and> kind (h' ! a) = KSpy (i\<lparr>calls := [], spyPlan := Stub\<rparr>))"
    by (simp_all add: resetOnly_def)
  from assms(2) True have "\<And>i. kind (h ! a) \<noteq> KSpy i"
    by (auto simp: isSpy_def kindOf_def objAt_def)
  with k have "kind (h' ! a) = kind (h ! a)" by blast
  with p have "h' ! a = h ! a" by (simp add: obj.equality)
  with True assms(1) show ?thesis by (simp add: objAt_def resetOnly_def)
next
  case False
  with assms(1) show ?thesis by (simp add: objAt_def resetOnly_def)
qed

lemma reset_spy:
  assumes "isSpy h (VRef a)"
  shows "\<exists>ob i. a < length h \<and> h ! a = ob \<and> kind ob = KSpy i
           \<and> reset (VRef a) h =
               (Ret (), h[a := ob\<lparr>kind := KSpy (i\<lparr>calls := [], spyPlan := Stub\<rparr>)\<rparr>])"
  using assms
  by (auto simp: reset_def spyReset_def isSpy_def kindOf_def objAt_def
      split: option.splits okind.splits if_splits)

lemma isSpy_ref: "isSpy h v \<Longrightarrow> \<exists>a. v = VRef a"
  by (cases v) (simp_all add: isSpy_def kindOf_def)

lemma reset_step:
  assumes r: "resetOnly h0 h" and spy: "isSpy h v"
  shows "\<exists>h'. reset v h = (Ret (), h') \<and> resetOnly h0 h' \<and> cleared h' v
           \<and> (\<forall>w. cleared h w \<longrightarrow> cleared h' w)"
proof -
  from spy obtain a where v: "v = VRef a" using isSpy_ref by blast
  from reset_spy [of h a] spy v obtain ob i where
    a: "a < length h" and ob: "h ! a = ob" and k: "kind ob = KSpy i"
    and res: "reset (VRef a) h =
               (Ret (), h[a := ob\<lparr>kind := KSpy (i\<lparr>calls := [], spyPlan := Stub\<rparr>)\<rparr>])"
    by blast
  let ?h' = "h[a := ob\<lparr>kind := KSpy (i\<lparr>calls := [], spyPlan := Stub\<rparr>)\<rparr>]"
  have 1: "resetOnly h0 ?h'"
    unfolding resetOnly_def
  proof (intro conjI allI impI)
    show "length ?h' = length h0" using r by (simp add: resetOnly_def)
    fix b assume b: "b < length h0"
    with r have pb: "props (h ! b) = props (h0 ! b)" "proto (h ! b) = proto (h0 ! b)"
      and kb: "kind (h ! b) = kind (h0 ! b)
               \<or> (\<exists>j. kind (h0 ! b) = KSpy j
                       \<and> kind (h ! b) = KSpy (j\<lparr>calls := [], spyPlan := Stub\<rparr>))"
      by (simp_all add: resetOnly_def)
    show "props (?h' ! b) = props (h0 ! b)"
      using pb ob a by (cases "b = a") simp_all
    show "proto (?h' ! b) = proto (h0 ! b)"
      using pb ob a by (cases "b = a") simp_all
    show "kind (?h' ! b) = kind (h0 ! b)
               \<or> (\<exists>j. kind (h0 ! b) = KSpy j
                       \<and> kind (?h' ! b) = KSpy (j\<lparr>calls := [], spyPlan := Stub\<rparr>))"
    proof (cases "b = a")
      case True
      with a have new: "kind (?h' ! b) = KSpy (i\<lparr>calls := [], spyPlan := Stub\<rparr>)" by simp
      from kb show ?thesis
      proof
        assume "kind (h ! b) = kind (h0 ! b)"
        with True ob k have "kind (h0 ! b) = KSpy i" by simp
        with new show ?thesis by blast
      next
        assume "\<exists>j. kind (h0 ! b) = KSpy j
                       \<and> kind (h ! b) = KSpy (j\<lparr>calls := [], spyPlan := Stub\<rparr>)"
        then obtain j where j: "kind (h0 ! b) = KSpy j"
          "kind (h ! b) = KSpy (j\<lparr>calls := [], spyPlan := Stub\<rparr>)" by blast
        with True ob k have "i = j\<lparr>calls := [], spyPlan := Stub\<rparr>" by simp
        then have "i\<lparr>calls := [], spyPlan := Stub\<rparr> = j\<lparr>calls := [], spyPlan := Stub\<rparr>"
          by simp
        with new j(1) show ?thesis by simp
      qed
    next
      case False
      with kb show ?thesis by simp
    qed
  qed
  have 2: "cleared ?h' (VRef a)"
    using a by (simp add: cleared_def spyInfoOf_def kindOf_def objAt_def)
  have 3: "cleared ?h' w" if "cleared h w" for w
  proof (cases "w = VRef a")
    case True
    with 2 show ?thesis by simp
  next
    case False
    with that a show ?thesis
      by (cases w)
        (auto simp: cleared_def spyInfoOf_def kindOf_def objAt_def
          split: if_splits option.splits okind.splits)
  qed
  from res v 1 2 3 show ?thesis by auto
qed

lemma resetEachLoop_total:
  assumes readable: "\<forall>m\<in>set ms. \<exists>v. getProp h0 obj m = Inr v"
  shows "resetOnly h0 h \<Longrightarrow>
         \<exists>h'. resetEachLoop obj ms i h = (Ret (), h') \<and> resetOnly h0 h'
           \<and> (\<forall>w. cleared h w \<longrightarrow> cleared h' w)
           \<and> (\<forall>j v. i \<le> j \<and> j < length ms \<and> getProp h0 obj (ms ! j) = Inr v \<and> isSpy h0 v
                  \<longrightarrow> cleared h' v)"
proof (induction k \<equiv> "length ms - i" arbitrary: i h)
  case 0
  then have "\<not> i < length ms" by simp
  with "0.prems" show ?case
    by (subst resetEachLoop.simps) auto
next
  case (Suc k)
  then have True: "i < length ms" and k: "k = length ms - Suc i" by simp_all
  then have "ms ! i \<in> set ms" by simp
  with readable obtain v where v0: "getProp h0 obj (ms ! i) = Inr v" by blast
  with Suc.prems have v: "getProp h obj (ms ! i) = Inr v"
    by (simp add: resetOnly_getProp)
  show ?case
  proof (cases "isSpy h v")
    case spy: True
    from reset_step [OF Suc.prems spy] obtain h1 where
      r: "reset v h = (Ret (), h1)" and ro: "resetOnly h0 h1" and c: "cleared h1 v"
      and keep: "\<forall>w. cleared h w \<longrightarrow> cleared h1 w"
      by blast
    from Suc.hyps(1) [OF k ro] obtain h' where
      l: "resetEachLoop obj ms (Suc i) h1 = (Ret (), h')" and ro': "resetOnly h0 h'"
      and keep': "\<forall>w. cleared h1 w \<longrightarrow> cleared h' w"
      and rest: "\<forall>j v. Suc i \<le> j \<and> j < length ms \<and> getProp h0 obj (ms ! j) = Inr v \<and> isSpy h0 v
                \<longrightarrow> cleared h' v"
      by blast
    have "resetEachLoop obj ms i h = (Ret (), h')"
      using True v spy r l by (subst resetEachLoop.simps) simp
    moreover have "\<forall>w. cleared h w \<longrightarrow> cleared h' w" using keep keep' by blast
    moreover have "cleared h' w"
      if "i \<le> j" "j < length ms" "getProp h0 obj (ms ! j) = Inr w" "isSpy h0 w" for j w
    proof (cases "j = i")
      case True
      with that v0 have "w = v" by simp
      with c keep' show ?thesis by blast
    next
      case False
      with that have "Suc i \<le> j" by simp
      with rest that show ?thesis by blast
    qed
    ultimately show ?thesis using ro' by blast
  next
    case nospy: False
    from Suc.hyps(1) [OF k Suc.prems] obtain h' where
      l: "resetEachLoop obj ms (Suc i) h = (Ret (), h')" and ro': "resetOnly h0 h'"
      and keep': "\<forall>w. cleared h w \<longrightarrow> cleared h' w"
      and rest: "\<forall>j v. Suc i \<le> j \<and> j < length ms \<and> getProp h0 obj (ms ! j) = Inr v \<and> isSpy h0 v
                \<longrightarrow> cleared h' v"
      by blast
    have "resetEachLoop obj ms i h = (Ret (), h')"
      using True v nospy l by (subst resetEachLoop.simps) simp
    moreover have "cleared h' w"
      if "i \<le> j" "j < length ms" "getProp h0 obj (ms ! j) = Inr w" "isSpy h0 w" for j w
    proof (cases "j = i")
      case True
      with that v0 have "w = v" by simp
      with that(4) nospy Suc.prems show ?thesis by (simp add: resetOnly_isSpy)
    next
      case False
      with that have "Suc i \<le> j" by simp
      with rest that show ?thesis by blast
    qed
    ultimately show ?thesis using ro' keep' by blast
  qed
qed

lemma resetEachLoop_raises:
  assumes bad: "k < length ms" "getProp h0 obj (ms ! k) = Inl e"
    and before: "\<forall>j<k. \<exists>v. getProp h0 obj (ms ! j) = Inr v"
  shows "resetOnly h0 h \<Longrightarrow> i \<le> k \<Longrightarrow>
         \<exists>h'. resetEachLoop obj ms i h = (Throw e, h') \<and> resetOnly h0 h'"
proof (induction d \<equiv> "k - i" arbitrary: i h)
  case 0
  then have "i = k" by simp
  with bad "0.prems"(1) have "getProp h obj (ms ! i) = Inl e" "i < length ms"
    by (simp_all add: resetOnly_getProp)
  then have "resetEachLoop obj ms i h = (Throw e, h)"
    by (subst resetEachLoop.simps) simp
  with "0.prems"(1) show ?case by blast
next
  case (Suc d)
  then have less: "i < k" and d: "d = k - Suc i" and next_le: "Suc i \<le> k" by simp_all
  with bad(1) have i: "i < length ms" by simp
  from before less obtain v where "getProp h0 obj (ms ! i) = Inr v" by blast
  with Suc.prems(1) have v: "getProp h obj (ms ! i) = Inr v"
    by (simp add: resetOnly_getProp)
  show ?case
  proof (cases "isSpy h v")
    case True
    from reset_step [OF Suc.prems(1) True] obtain h1 where
      r: "reset v h = (Ret (), h1)" and ro: "resetOnly h0 h1"
      by blast
    from Suc.hyps(1) [OF d ro next_le] obtain h' where
      l: "resetEachLoop obj ms (Suc i) h1 = (Throw e, h')" and ro': "resetOnly h0 h'"
      by blast
    have "resetEachLoop obj ms i h = (Throw e, h')"
      using i v True r l by (subst resetEachLoop.simps) simp
    with ro' show ?thesis by blast
  next
    case False
    from Suc.hyps(1) [OF d Suc.prems(1) next_le] obtain h' where
      l: "resetEachLoop obj ms (Suc i) h = (Throw e, h')" and ro': "resetOnly h0 h'"
      by blast
    have "resetEachLoop obj ms i h = (Throw e, h')"
      using i v False l by (subst resetEachLoop.simps) simp
    with ro' show ?thesis by blast
  qed
qed

lemma first_unreadable:
  assumes "\<not> (\<forall>m\<in>set ms. \<exists>v. getProp h obj m = Inr v)"
  shows "\<exists>k e. k < length ms \<and> getProp h obj (ms ! k) = Inl e
           \<and> (\<forall>j<k. \<exists>v. getProp h obj (ms ! j) = Inr v)"
proof -
  let ?P = "\<lambda>k. k < length ms \<and> (\<forall>v. getProp h obj (ms ! k) \<noteq> Inr v)"
  from assms obtain k0 where "?P k0" by (auto simp: in_set_conv_nth)
  then have least: "?P (LEAST k. ?P k)" by (rule LeastI)
  then obtain e where e: "getProp h obj (ms ! (LEAST k. ?P k)) = Inl e"
    by (cases "getProp h obj (ms ! (LEAST k. ?P k))") auto
  have "\<exists>v. getProp h obj (ms ! j) = Inr v" if "j < (LEAST k. ?P k)" for j
  proof -
    from that have "\<not> ?P j" by (rule not_less_Least)
    moreover from that least have "j < length ms" by simp
    ultimately show ?thesis by blast
  qed
  with least e show ?thesis by blast
qed

text \<open>
  Claim C8, as the code has it. The names are the single name, or the names of the
  sequence, in order. If every named member of \<open>obj\<close> can be read, \<open>resetEach\<close>
  raises no error and returns \<open>obj\<close>; every named member still holds the value it
  held; a named member that was a spy has no recorded calls afterwards; and the
  object that a named member which was not a spy refers to is exactly as it was.
  Otherwise the call ends with the exception of the first named member that cannot
  be read (line 134 reads it outside any \<^verbatim>\<open>try\<close>), and the store then differs from
  the one before the call at most by spies that have been reset.
\<close>

theorem resetEach_resets_named_spies:
  assumes "names = (case methods of One x \<Rightarrow> [x] | Many xs \<Rightarrow> xs)"
  shows "if \<forall>m\<in>set names. \<exists>v. getProp h obj m = Inr v
         then \<exists>h'. resetEach obj methods h = (Ret (VRef obj), h')
                \<and> (\<forall>m\<in>set names. \<forall>v. getProp h obj m = Inr v \<longrightarrow>
                      getProp h' obj m = Inr v
                      \<and> (if isSpy h v then map_option calls (spyInfoOf h' v) = Some []
                         else \<forall>a. v = VRef a \<longrightarrow> objAt h' a = objAt h a))
         else \<exists>k e h'. k < length names \<and> getProp h obj (names ! k) = Inl e
                \<and> (\<forall>j<k. \<exists>v. getProp h obj (names ! j) = Inr v)
                \<and> resetEach obj methods h = (Throw e, h') \<and> resetOnly h h'"
proof (cases "\<forall>m\<in>set names. \<exists>v. getProp h obj m = Inr v")
  case readable: True
  from assms have arr: "toArray methods = names" by (cases methods) simp_all
  from resetEachLoop_total [OF readable resetOnly_refl, of 0] obtain h' where
    l: "resetEachLoop obj names 0 h = (Ret (), h')" and ro: "resetOnly h h'"
    and "\<forall>w. cleared h w \<longrightarrow> cleared h' w"
    and all: "\<forall>j v. 0 \<le> j \<and> j < length names
                \<and> getProp h obj (names ! j) = Inr v \<and> isSpy h v \<longrightarrow> cleared h' v"
    by (elim exE conjE)
  from l arr have res: "resetEach obj methods h = (Ret (VRef obj), h')"
    by (simp add: resetEach_def)
  have members: "\<forall>m\<in>set names. \<forall>v. getProp h obj m = Inr v \<longrightarrow>
                 getProp h' obj m = Inr v
                 \<and> (if isSpy h v then map_option calls (spyInfoOf h' v) = Some []
                    else \<forall>a. v = VRef a \<longrightarrow> objAt h' a = objAt h a)"
  proof (intro ballI allI impI)
    fix m v
    assume m: "m \<in> set names" and v: "getProp h obj m = Inr v"
    from m obtain j where j: "j < length names" "names ! j = m"
      by (auto simp: in_set_conv_nth)
    from ro v have same: "getProp h' obj m = Inr v" by (simp add: resetOnly_getProp)
    show "getProp h' obj m = Inr v
          \<and> (if isSpy h v then map_option calls (spyInfoOf h' v) = Some []
             else \<forall>a. v = VRef a \<longrightarrow> objAt h' a = objAt h a)"
    proof (cases "isSpy h v")
      case True
      from j v True have "0 \<le> j \<and> j < length names
                \<and> getProp h obj (names ! j) = Inr v \<and> isSpy h v" by simp
      with all have "cleared h' v" by (elim allE impE) assumption+
      with True same show ?thesis by (simp add: cleared_def)
    next
      case False
      have "objAt h' a = objAt h a" if "v = VRef a" for a
        using ro False that by (simp add: resetOnly_non_spy)
      with False same show ?thesis by simp
    qed
  qed
  from res members have then_part: "\<exists>h'. resetEach obj methods h = (Ret (VRef obj), h')
                \<and> (\<forall>m\<in>set names. \<forall>v. getProp h obj m = Inr v \<longrightarrow>
                      getProp h' obj m = Inr v
                      \<and> (if isSpy h v then map_option calls (spyInfoOf h' v) = Some []
                         else \<forall>a. v = VRef a \<longrightarrow> objAt h' a = objAt h a))"
    by (intro exI [of _ h'] conjI)
  show ?thesis unfolding if_P [OF readable] by (rule then_part)
next
  case unreadable: False
  from assms have arr: "toArray methods = names" by (cases methods) simp_all
  from first_unreadable [OF unreadable] obtain k e where
    k: "k < length names" and e: "getProp h obj (names ! k) = Inl e"
    and before: "\<forall>j<k. \<exists>v. getProp h obj (names ! j) = Inr v"
    by (elim exE conjE)
  have "0 \<le> k" by simp
  from resetEachLoop_raises [OF k e before resetOnly_refl this] obtain h' where
    l: "resetEachLoop obj names 0 h = (Throw e, h')" and ro: "resetOnly h h'"
    by (elim exE conjE)
  from l arr have res: "resetEach obj methods h = (Throw e, h')"
    by (simp add: resetEach_def)
  from k e before res ro
  have else_part: "\<exists>k e h'. k < length names \<and> getProp h obj (names ! k) = Inl e
                \<and> (\<forall>j<k. \<exists>v. getProp h obj (names ! j) = Inr v)
                \<and> resetEach obj methods h = (Throw e, h') \<and> resetOnly h h'"
    by (intro exI conjI)
  show ?thesis unfolding if_not_P [OF unreadable] by (rule else_part)
qed

theorem resetEach_resets_named_spies_witness:
  "getProp spiedStore 2 ''foo'' = Inr (VRef 3) \<and> isSpy spiedStore (VRef 3)
   \<and> getProp spiedStore 2 ''baz'' = Inr (VRef 5) \<and> \<not> isSpy spiedStore (VRef 5)
   \<and> (\<exists>h'. resetEach 2 (One ''foo'') spiedStore = (Ret (VRef 2), h')
          \<and> getProp h' 2 ''foo'' = Inr (VRef 3)
          \<and> map_option calls (spyInfoOf h' (VRef 3)) = Some [])
   \<and> (\<exists>h'. resetEach 2 (One ''baz'') spiedStore = (Ret (VRef 2), h')
          \<and> getProp h' 2 ''baz'' = Inr (VRef 5)
          \<and> objAt h' 5 = objAt spiedStore 5)
   \<and> (\<exists>h'. resetEach 2 (Many [''foo'', ''baz'']) spiedStore = (Ret (VRef 2), h')
          \<and> getProp h' 2 ''foo'' = Inr (VRef 3)
          \<and> map_option calls (spyInfoOf h' (VRef 3)) = Some []
          \<and> getProp h' 2 ''baz'' = Inr (VRef 5)
          \<and> objAt h' 5 = objAt spiedStore 5)
   \<and> getProp restrictedStore 2 ''caller'' = Inl (Thrown (VStr ''restricted''))
   \<and> (\<exists>h'. resetEach 2 (Many [''prototype'', ''caller'']) restrictedStore
              = (Throw (Thrown (VStr ''restricted'')), h'))"
proof -
  have foo: "getProp spiedStore 2 ''foo'' = Inr (VRef 3)" by code_simp
  have fooSpy: "isSpy spiedStore (VRef 3)" by code_simp
  have baz: "getProp spiedStore 2 ''baz'' = Inr (VRef 5)" by code_simp
  have bazPlain: "\<not> isSpy spiedStore (VRef 5)" by code_simp
  have slot: "getProp restrictedStore 2 ''prototype'' = Inr (VRef 3)" by code_simp
  have caller: "getProp restrictedStore 2 ''caller'' = Inl (Thrown (VStr ''restricted''))"
    by code_simp
  have one_foo: "[''foo''] = (case One ''foo'' of One x \<Rightarrow> [x] | Many xs \<Rightarrow> xs)" by simp
  have one_baz: "[''baz''] = (case One ''baz'' of One x \<Rightarrow> [x] | Many xs \<Rightarrow> xs)" by simp
  have many: "[''foo'', ''baz''] =
                (case Many [''foo'', ''baz''] of One x \<Rightarrow> [x] | Many xs \<Rightarrow> xs)" by simp
  have bad: "[''prototype'', ''caller''] =
               (case Many [''prototype'', ''caller''] of One x \<Rightarrow> [x] | Many xs \<Rightarrow> xs)"
    by simp
  from resetEach_resets_named_spies [OF one_foo, of spiedStore 2] foo fooSpy
  have 1: "\<exists>h'. resetEach 2 (One ''foo'') spiedStore = (Ret (VRef 2), h')
          \<and> getProp h' 2 ''foo'' = Inr (VRef 3)
          \<and> map_option calls (spyInfoOf h' (VRef 3)) = Some []"
    by auto
  from resetEach_resets_named_spies [OF one_baz, of spiedStore 2] baz bazPlain
  have 2: "\<exists>h'. resetEach 2 (One ''baz'') spiedStore = (Ret (VRef 2), h')
          \<and> getProp h' 2 ''baz'' = Inr (VRef 5)
          \<and> objAt h' 5 = objAt spiedStore 5"
    by auto
  from resetEach_resets_named_spies [OF many, of spiedStore 2] foo fooSpy baz bazPlain
  have 3: "\<exists>h'. resetEach 2 (Many [''foo'', ''baz'']) spiedStore = (Ret (VRef 2), h')
          \<and> getProp h' 2 ''foo'' = Inr (VRef 3)
          \<and> map_option calls (spyInfoOf h' (VRef 3)) = Some []
          \<and> getProp h' 2 ''baz'' = Inr (VRef 5)
          \<and> objAt h' 5 = objAt spiedStore 5"
    by auto
  from resetEach_resets_named_spies [OF bad, of restrictedStore 2] slot caller
  have 4: "\<exists>h'. resetEach 2 (Many [''prototype'', ''caller'']) restrictedStore
              = (Throw (Thrown (VStr ''restricted'')), h')"
    by (auto simp: less_Suc_eq nth_Cons')
  from foo fooSpy baz bazPlain 1 2 3 caller 4 show ?thesis by (intro conjI)
qed

text \<open>
  Claim C8 as stated fails on \<open>restrictedStore\<close>: the member \<^verbatim>\<open>caller\<close> of the
  function \<^verbatim>\<open>F\<close> is not a spy, and \<^verbatim>\<open>resetEach(F, 'caller')\<close> does not skip it
  silently but ends with the exception that the read of the member throws.
\<close>

theorem resetEach_raises_on_unreadable_member:
  "resetEach 2 (One ''caller'') restrictedStore
     = (Throw (Thrown (VStr ''restricted'')), restrictedStore)"
  by code_simp

section \<open>The name constructor in the descriptor pass\<close>

lemma pushNames_subset:
  "set (pushNames names ps) \<subseteq> set ps \<union> (set names - {''constructor''})"
proof (induction names arbitrary: ps)
  case Nil
  then show ?case by simp
next
  case (Cons p rest)
  have "set (pushNames rest (if p \<noteq> ''constructor'' \<and> p \<notin> set ps then ps @ [p] else ps))
          \<subseteq> set (if p \<noteq> ''constructor'' \<and> p \<notin> set ps then ps @ [p] else ps)
              \<union> (set rest - {''constructor''})"
    by (rule Cons.IH)
  then show ?case by (auto split: if_splits)
qed

lemma foldAncestorNames_subset:
  assumes "foldAncestorNames h cur own = Inr ps"
  shows "''constructor'' \<in> set ps \<longrightarrow> ''constructor'' \<in> set own"
  using assms pushNames_subset
  by (fastforce simp: foldAncestorNames_def Let_def split: sum.splits if_splits option.splits)

lemma dispatch_visits:
  "set (visits (snd (dispatch via visit cur n s))) \<subseteq> insert (cur, n) (set (visits s))"
  by (auto simp: dispatch_def split: sum.splits prod.splits)

lemma descriptorStep_visits:
  "set (visits (snd (descriptorStep visit cur p s))) \<subseteq> insert (cur, p) (set (visits s))"
  using dispatch_visits [of Descriptor visit cur p s]
  by (auto simp: descriptorStep_def split: sum.splits)

lemma descriptorPass_visits:
  "set (visits (snd (descriptorPass visit cur ps s))) \<subseteq> set (visits s) \<union> {cur} \<times> set ps"
proof (induction ps arbitrary: s)
  case Nil
  then show ?case by simp
next
  case (Cons p rest)
  obtain st s' where d: "descriptorStep visit cur p s = (st, s')"
    by (cases "descriptorStep visit cur p s")
  with descriptorStep_visits [of visit cur p s]
  have 1: "set (visits s') \<subseteq> insert (cur, p) (set (visits s))" by simp
  have 2: "set (visits (snd (descriptorPass visit cur rest s'))) \<subseteq> set (visits s') \<union> {cur} \<times> set rest"
    by (rule Cons.IH)
  show ?case
  proof (cases st)
    case (Ret u)
    with d 1 2 show ?thesis by auto
  next
    case (Throw e)
    with d 1 show ?thesis by auto
  next
    case Unfinished
    with d 1 show ?thesis by auto
  qed
qed

lemma descriptorPass_unreadable_head:
  assumes "getProp (wheap s) cur p = Inl e"
  shows "descriptorPass visit cur (p # rest) s = (Throw e, s)"
  using assms by (simp add: descriptorStep_def)

lemma collectOwnNames_unreadable:
  "p \<in> set (collectOwnNames h cur) \<Longrightarrow> \<exists>e. getProp h cur p = Inl e"
  by (auto simp: collectOwnNames_def split: sum.splits)

lemma pushNames_prefix: "\<exists>extra. pushNames names ps = ps @ extra"
proof (induction names arbitrary: ps)
  case Nil
  then show ?case by simp
next
  case (Cons p rest)
  from Cons.IH [of "if p \<noteq> ''constructor'' \<and> p \<notin> set ps then ps @ [p] else ps"]
  show ?case by (auto split: if_splits)
qed

lemma foldAncestorNames_prefix:
  assumes "foldAncestorNames h cur own = Inr ps"
  shows "\<exists>extra. ps = own @ extra"
  using assms pushNames_prefix
  by (fastforce simp: foldAncestorNames_def Let_def split: sum.splits if_splits option.splits)

text \<open>
  Claim C9. Let \<open>ps\<close> be the names that lines 177-195 collect at a level: the own
  names kept by the filter, followed by the names folded in from the prototype-chain
  ancestor. The fold adds no \<^verbatim>\<open>constructor\<close>: if the name is in \<open>ps\<close>, the filter had
  kept it as an own name. And the descriptor pass over \<open>ps\<close> never invokes the
  visitor for \<^verbatim>\<open>constructor\<close>, whatever the level, the visitor and the store.
\<close>

theorem constructor_never_folded_in:
  assumes "foldAncestorNames (wheap s) cur (collectOwnNames (wheap s) cur) = Inr ps"
  shows "(''constructor'' \<in> set ps \<longrightarrow> ''constructor'' \<in> set (collectOwnNames (wheap s) cur))
         \<and> (cur, ''constructor'') \<notin>
             set (visits (snd (descriptorPass visit cur ps s))) - set (visits s)"
proof
  from assms show "''constructor'' \<in> set ps \<longrightarrow> ''constructor'' \<in> set (collectOwnNames (wheap s) cur)"
    by (rule foldAncestorNames_subset)
next
  show "(cur, ''constructor'') \<notin>
          set (visits (snd (descriptorPass visit cur ps s))) - set (visits s)"
  proof (cases "collectOwnNames (wheap s) cur")
    case Nil
    with assms foldAncestorNames_subset [of "wheap s" cur "[]" ps]
    have "''constructor'' \<notin> set ps" by auto
    with descriptorPass_visits [of visit cur ps s] show ?thesis by auto
  next
    case (Cons p rest)
    then have "p \<in> set (collectOwnNames (wheap s) cur)" by simp
    then obtain e where e: "getProp (wheap s) cur p = Inl e"
      using collectOwnNames_unreadable by blast
    from assms Cons obtain extra where "ps = p # rest @ extra"
      using foldAncestorNames_prefix by fastforce
    moreover from e have "descriptorPass visit cur (p # rest @ extra) s = (Throw e, s)"
      by (rule descriptorPass_unreadable_head)
    ultimately have "descriptorPass visit cur ps s = (Throw e, s)" by (simp only:)
    then show ?thesis by simp
  qed
qed

theorem constructor_never_folded_in_witness:
  "foldAncestorNames (wheap instanceAfterForIn) 4 (collectOwnNames (wheap instanceAfterForIn) 4)
     = Inr [''run'', ''stop'', ''locked'']
   \<and> getOwnPropertyNames instanceStore 3 = [''constructor'', ''run'', ''stop'', ''locked'']
   \<and> visits (snd (descriptorPass idleVisitor 4 [''run'', ''stop'', ''locked''] instanceAfterForIn))
       = [(4, ''stop''), (4, ''run'')]
   \<and> (4, ''constructor'') \<notin>
         set (visits (snd (descriptorPass idleVisitor 4 [''run'', ''stop'', ''locked'']
                            instanceAfterForIn)))
         - set (visits instanceAfterForIn)"
proof -
  have fold: "foldAncestorNames (wheap instanceAfterForIn) 4
                (collectOwnNames (wheap instanceAfterForIn) 4)
              = Inr [''run'', ''stop'', ''locked'']"
    by code_simp
  have names: "getOwnPropertyNames instanceStore 3 = [''constructor'', ''run'', ''stop'', ''locked'']"
    by code_simp
  have log: "visits (snd (descriptorPass idleVisitor 4 [''run'', ''stop'', ''locked'']
                            instanceAfterForIn))
             = [(4, ''stop''), (4, ''run'')]"
    by code_simp
  from constructor_never_folded_in [OF fold, of idleVisitor]
  have "(4, ''constructor'') \<notin>
         set (visits (snd (descriptorPass idleVisitor 4 [''run'', ''stop'', ''locked'']
                            instanceAfterForIn)))
         - set (visits instanceAfterForIn)"
    by (rule conjunct2)
  with fold names log show ?thesis by (intro conjI)
qed

section \<open>Spying named methods\<close>

lemma spyable_iff:
  "getProp h obj m = Inr v \<Longrightarrow>
   spyable h obj m = (isFunction h v \<and> \<not> isSpy h v \<and> assignable h obj m)"
  by (simp add: spyable_def)

lemma spiedUpTo_member:
  assumes "spiedUpTo h0 obj ms nb i h" and "m \<in> set (take i ms)" and "spyable h0 obj m"
  shows "\<exists>sp. getProp h obj m = Inr sp \<and> isSpy h sp
           \<and> (m \<notin> set (take nb ms) \<longrightarrow> map_option spyPlan (spyInfoOf h sp) = Some Stub)"
proof -
  from assms(1)
  have every: "\<forall>m\<in>set (take i ms). spyable h0 obj m \<longrightarrow>
        (\<exists>sp. getProp h obj m = Inr sp \<and> isSpy h sp
           \<and> (m \<notin> set (take nb ms) \<longrightarrow> map_option spyPlan (spyInfoOf h sp) = Some Stub))"
    by (simp only: spiedUpTo_def)
  from mp [OF bspec [OF every assms(2)] assms(3)] show ?thesis .
qed

lemma take_Suc_set: "i < length ms \<Longrightarrow> set (take (Suc i) ms) = insert (ms ! i) (set (take i ms))"
  by (simp add: take_Suc_conv_app_nth)

lemma spyEach_step:
  assumes obj: "obj < length h0"
    and pres: "preserved obj {m \<in> set (take i ms). spyable h0 obj m} h0 h"
    and upto: "spiedUpTo h0 obj ms nb i h"
    and kept: "\<forall>c. hasBehavior h0 c \<longrightarrow> hasBehavior h c"
    and i: "i < length ms"
    and v0: "getProp h0 obj (ms ! i) = Inr v0"
    and bok: "isFunction h0 v0 \<and> \<not> isSpy h0 v0 \<longrightarrow> (\<forall>bb. b = Some bb \<longrightarrow> hasBehavior h0 bb)"
    and bnone: "ms ! i \<notin> set (take nb ms) \<Longrightarrow> b = None"
  shows "\<exists>r h1. spyIf obj (ms ! i) b h = (Ret r, h1)
           \<and> preserved obj {m \<in> set (take (Suc i) ms). spyable h0 obj m} h0 h1
           \<and> spiedUpTo h0 obj ms nb (Suc i) h1
           \<and> (\<forall>c. hasBehavior h0 c \<longrightarrow> hasBehavior h1 c)"
proof -
  let ?n = "ms ! i"
  let ?N = "{m \<in> set (take i ms). spyable h0 obj m}"
  let ?N' = "{m \<in> set (take (Suc i) ms). spyable h0 obj m}"
  from i have tk: "set (take (Suc i) ms) = insert ?n (set (take i ms))" by (rule take_Suc_set)
  from pres obj have objh: "obj < length h" using preserved_length [of obj ?N h0 h] by simp
  have unchanged: ?thesis
    if r: "spyIf obj ?n b h = (Ret r, h)" and old: "?n \<in> set (take i ms) \<or> \<not> spyable h0 obj ?n"
    for r
  proof -
    from old tk have same: "?N' = ?N" by auto
    from pres same have p: "preserved obj ?N' h0 h" by simp
    have u: "spiedUpTo h0 obj ms nb (Suc i) h"
      unfolding spiedUpTo_def
    proof (intro ballI impI)
      fix m assume m: "m \<in> set (take (Suc i) ms)" and s: "spyable h0 obj m"
      from m s old tk have "m \<in> set (take i ms)" by auto
      with upto show "\<exists>sp. getProp h obj m = Inr sp \<and> isSpy h sp
           \<and> (m \<notin> set (take nb ms) \<longrightarrow> map_option spyPlan (spyInfoOf h sp) = Some Stub)"
        using s by (rule spiedUpTo_member)
    qed
    from r p u kept show ?thesis by blast
  qed
  show ?thesis
  proof (cases "?n \<in> ?N")
    case True
    then have mem: "?n \<in> set (take i ms)" and s: "spyable h0 obj ?n" by simp_all
    from spiedUpTo_member [OF upto mem s] obtain sp where
      "getProp h obj ?n = Inr sp" "isSpy h sp" by blast
    then have "spyIf obj ?n b h = (Ret sp, h)" by (simp add: spyIf_not_plain)
    then show ?thesis using mem by (intro unchanged) simp_all
  next
    case fresh: False
    from pres obj fresh have "getProp h obj ?n = getProp h0 obj ?n" by (rule preserved_getProp)
    with v0 have v: "getProp h obj ?n = Inr v0" by simp
    from pres have plain: "(isFunction h v0 \<and> \<not> isSpy h v0) = (isFunction h0 v0 \<and> \<not> isSpy h0 v0)"
      by (rule preserved_plain)
    from pres obj fresh have asg: "assignable h obj ?n = assignable h0 obj ?n"
      by (rule preserved_assignable)
    show ?thesis
    proof (cases "isFunction h0 v0 \<and> \<not> isSpy h0 v0")
      case False
      with plain v have "spyIf obj ?n b h = (Ret v0, h)" by (simp add: spyIf_not_plain)
      moreover from False v0 have "\<not> spyable h0 obj ?n" by (simp add: spyable_iff)
      ultimately show ?thesis by (intro unchanged) simp_all
    next
      case True
      with plain have f: "isFunction h v0" and ns: "\<not> isSpy h v0" by simp_all
      from True bok kept have beh: "\<forall>bb. b = Some bb \<longrightarrow> hasBehavior h bb" by simp
      let ?M = "if assignable h obj ?n then {?n} else {}"
      from spyIf_plain_effect [OF v f ns beh] obtain h1 where
        r: "spyIf obj ?n b h = (Ret (VRef (length h)), h1)"
        and p1: "preserved obj ?M h h1"
        and l: "length h1 = Suc (length h)"
        and stub: "b = None \<longrightarrow> map_option spyPlan (spyInfoOf h1 (VRef (length h))) = Some Stub"
        and g: "assignable h obj ?n \<longrightarrow> getProp h1 obj ?n = Inr (VRef (length h))"
        and hb: "\<forall>c. hasBehavior h c \<longrightarrow> hasBehavior h1 c"
        by (elim exE conjE)
      from p1 l have spy: "isSpy h1 (VRef (length h))" by (rule new_object_is_spy)
      from True v0 asg have sp_n: "spyable h0 obj ?n = assignable h obj ?n"
        by (simp add: spyable_iff)
      with tk have names: "?N' = ?N \<union> ?M" by auto
      from preserved_trans [OF pres p1] names have p: "preserved obj ?N' h0 h1" by simp
      have u: "spiedUpTo h0 obj ms nb (Suc i) h1"
        unfolding spiedUpTo_def
      proof (intro ballI impI)
        fix m assume m: "m \<in> set (take (Suc i) ms)" and s: "spyable h0 obj m"
        show "\<exists>sp. getProp h1 obj m = Inr sp \<and> isSpy h1 sp
           \<and> (m \<notin> set (take nb ms) \<longrightarrow> map_option spyPlan (spyInfoOf h1 sp) = Some Stub)"
        proof (cases "m = ?n")
          case True
          with s sp_n have "assignable h obj ?n" by simp
          with g have "getProp h1 obj ?n = Inr (VRef (length h))" by simp
          moreover have "?n \<notin> set (take nb ms) \<longrightarrow>
              map_option spyPlan (spyInfoOf h1 (VRef (length h))) = Some Stub"
            using bnone stub by blast
          ultimately show ?thesis using True spy by blast
        next
          case False
          with m tk have old: "m \<in> set (take i ms)" by simp
          from spiedUpTo_member [OF upto old s] obtain sp where
            sp: "getProp h obj m = Inr sp" "isSpy h sp"
            "m \<notin> set (take nb ms) \<longrightarrow> map_option spyPlan (spyInfoOf h sp) = Some Stub"
            by blast
          from False have "m \<notin> ?M" by simp
          with p1 objh have "getProp h1 obj m = Inr sp \<and> isSpy h1 sp
              \<and> (m \<notin> set (take nb ms) \<longrightarrow> map_option spyPlan (spyInfoOf h1 sp) = Some Stub)"
            using sp by (rule spied_member_kept)
          then show ?thesis by blast
        qed
      qed
      from kept hb have "\<forall>c. hasBehavior h0 c \<longrightarrow> hasBehavior h1 c" by blast
      with r p u show ?thesis by blast
    qed
  qed
qed

lemma elementAt_beyond:
  assumes "i < length ms" and "ms ! i \<notin> set (take (length bs) ms)"
  shows "elementAt bs i = None"
proof (cases "i < length bs")
  case True
  with assms(1) have "take (length bs) ms ! i = ms ! i" "i < length (take (length bs) ms)"
    by simp_all
  then have "ms ! i \<in> set (take (length bs) ms)" by (metis nth_mem)
  with assms(2) show ?thesis by simp
next
  case False
  then show ?thesis by (simp add: elementAt_def)
qed

lemma spyEachLoop_total:
  assumes obj: "obj < length h0"
    and readable: "\<forall>m\<in>set ms. \<exists>v. getProp h0 obj m = Inr v"
    and answered: "\<forall>j<length bs. \<forall>v b. getProp h0 obj (ms ! j) = Inr v
                     \<and> isFunction h0 v \<and> \<not> isSpy h0 v \<and> bs ! j = Some b \<longrightarrow> hasBehavior h0 b"
  shows "preserved obj {m \<in> set (take i ms). spyable h0 obj m} h0 h \<Longrightarrow>
         spiedUpTo h0 obj ms (length bs) i h \<Longrightarrow>
         \<forall>c. hasBehavior h0 c \<longrightarrow> hasBehavior h c \<Longrightarrow>
         \<exists>h'. spyEachLoop obj ms bs False i h = (Ret (), h')
           \<and> preserved obj {m \<in> set ms. spyable h0 obj m} h0 h'
           \<and> spiedUpTo h0 obj ms (length bs) (length ms) h'"
proof (induction k \<equiv> "length ms - i" arbitrary: i h)
  case 0
  then have past: "\<not> i < length ms" and all: "take i ms = ms" by simp_all
  from past have "spyEachLoop obj ms bs False i h = (Ret (), h)"
    by (subst spyEachLoop.simps) simp
  moreover from "0.prems"(1) all have "preserved obj {m \<in> set ms. spyable h0 obj m} h0 h"
    by simp
  moreover from "0.prems"(2) all have "spiedUpTo h0 obj ms (length bs) (length ms) h"
    by (simp add: spiedUpTo_def)
  ultimately show ?case by blast
next
  case (Suc k)
  then have i: "i < length ms" and k: "k = length ms - Suc i" by simp_all
  then have "ms ! i \<in> set ms" by simp
  with readable obtain v0 where v0: "getProp h0 obj (ms ! i) = Inr v0" by blast
  have bok: "isFunction h0 v0 \<and> \<not> isSpy h0 v0 \<longrightarrow>
               (\<forall>bb. elementAt bs i = Some bb \<longrightarrow> hasBehavior h0 bb)"
  proof (intro impI allI)
    fix bb assume plain: "isFunction h0 v0 \<and> \<not> isSpy h0 v0" and e: "elementAt bs i = Some bb"
    from e have j: "i < length bs" and b: "bs ! i = Some bb"
      by (auto simp: elementAt_def split: if_splits)
    from v0 plain b have "getProp h0 obj (ms ! i) = Inr v0
                     \<and> isFunction h0 v0 \<and> \<not> isSpy h0 v0 \<and> bs ! i = Some bb" by simp
    with answered j show "hasBehavior h0 bb" by blast
  qed
  have "\<exists>r h1. spyIf obj (ms ! i) (elementAt bs i) h = (Ret r, h1)
           \<and> preserved obj {m \<in> set (take (Suc i) ms). spyable h0 obj m} h0 h1
           \<and> spiedUpTo h0 obj ms (length bs) (Suc i) h1
           \<and> (\<forall>c. hasBehavior h0 c \<longrightarrow> hasBehavior h1 c)"
  proof (rule spyEach_step [OF obj Suc.prems(1) Suc.prems(2) Suc.prems(3) i v0 bok])
    assume "ms ! i \<notin> set (take (length bs) ms)"
    with i show "elementAt bs i = None" by (rule elementAt_beyond)
  qed
  then obtain r h1 where
    r: "spyIf obj (ms ! i) (elementAt bs i) h = (Ret r, h1)"
    and p: "preserved obj {m \<in> set (take (Suc i) ms). spyable h0 obj m} h0 h1"
    and u: "spiedUpTo h0 obj ms (length bs) (Suc i) h1"
    and hb: "\<forall>c. hasBehavior h0 c \<longrightarrow> hasBehavior h1 c"
    by (elim exE conjE)
  from Suc.hyps(1) [OF k p u hb] obtain h' where
    l: "spyEachLoop obj ms bs False (Suc i) h1 = (Ret (), h')"
    and p': "preserved obj {m \<in> set ms. spyable h0 obj m} h0 h'"
    and u': "spiedUpTo h0 obj ms (length bs) (length ms) h'"
    by (elim exE conjE)
  from i r l have "spyEachLoop obj ms bs False i h = (Ret (), h')"
    by (subst spyEachLoop.simps) simp
  with p' u' show ?case by blast
qed

lemma spyEachLoop_dangling:
  assumes "\<not> obj < length h"
  shows "spyEachLoop obj ms bs single i h = (Ret (), h)"
proof (induction k \<equiv> "length ms - i" arbitrary: i)
  case 0
  then show ?case by (subst spyEachLoop.simps) simp
next
  case (Suc k)
  then have i: "i < length ms" and k: "k = length ms - Suc i" by simp_all
  from assms have "getProp h obj (ms ! i) = Inr VUndefined" by (rule getProp_dangling)
  moreover have "\<not> (isFunction h VUndefined \<and> \<not> isSpy h VUndefined)"
    by (simp add: isFunction_def kindOf_def)
  ultimately have "spyIf obj (ms ! i)
      (if single then elementAt bs 0 else elementAt bs i) h = (Ret VUndefined, h)"
    by (rule spyIf_not_plain)
  with i Suc.hyps(1) [OF k] show ?case by (subst spyEachLoop.simps) simp
qed

text \<open>
  Claim C10, as the code has it. Let \<open>spyEach\<close> be called with an array of at least
  two behaviours that is shorter than the array of method names; let every named
  member of \<open>obj\<close> be readable; and let every behaviour that is paired with a member
  which is a function and not a spy name a function that a spy has. Then the call
  returns \<open>obj\<close>, and for every index \<open>i\<close> past the end of the behaviours: the lookup
  \<^verbatim>\<open>spyBehaviors[i]\<close> gives \<^verbatim>\<open>undefined\<close>; the member \<open>ms ! i\<close>, if it was a spy or a
  function to which an assignment takes effect, is a spy afterwards; and if it was
  not a spy, and its name does not also occur at an index that has a behaviour,
  that spy has no configured behaviour.
\<close>

theorem spyEach_past_the_behaviors:
  assumes "2 \<le> length bs" and "length bs < length ms"
    and "\<forall>m\<in>set ms. \<exists>v. getProp h obj m = Inr v"
    and "\<forall>j<length bs. \<forall>v b. getProp h obj (ms ! j) = Inr v
           \<and> isFunction h v \<and> \<not> isSpy h v \<and> bs ! j = Some b \<longrightarrow> hasBehavior h b"
  shows "\<exists>h'. spyEach obj (Many ms) (Many bs) h = (Ret (VRef obj), h')
           \<and> (\<forall>i. length bs \<le> i \<and> i < length ms \<longrightarrow> elementAt bs i = None
                 \<and> (\<forall>v. getProp h obj (ms ! i) = Inr v \<and> isFunction h v
                         \<and> (isSpy h v \<or> assignable h obj (ms ! i)) \<longrightarrow>
                       (\<exists>sp. getProp h' obj (ms ! i) = Inr sp \<and> isSpy h' sp
                          \<and> (\<not> isSpy h v \<and> ms ! i \<notin> set (take (length bs) ms) \<longrightarrow>
                                map_option spyPlan (spyInfoOf h' sp) = Some Stub))))"
proof (cases "obj < length h")
  case obj: True
  have start: "preserved obj {m \<in> set (take 0 ms). spyable h obj m} h h"
    "spiedUpTo h obj ms (length bs) 0 h" "\<forall>c. hasBehavior h c \<longrightarrow> hasBehavior h c"
    by (simp_all add: preserved_refl spiedUpTo_def)
  from spyEachLoop_total [OF obj assms(3,4) start] obtain h' where
    l: "spyEachLoop obj ms bs False 0 h = (Ret (), h')"
    and p: "preserved obj {m \<in> set ms. spyable h obj m} h h'"
    and u: "spiedUpTo h obj ms (length bs) (length ms) h'"
    by (elim exE conjE)
  from assms(1) l have res: "spyEach obj (Many ms) (Many bs) h = (Ret (VRef obj), h')"
    by (simp add: spyEach_def)
  have beyond: "\<forall>i. length bs \<le> i \<and> i < length ms \<longrightarrow> elementAt bs i = None
                 \<and> (\<forall>v. getProp h obj (ms ! i) = Inr v \<and> isFunction h v
                         \<and> (isSpy h v \<or> assignable h obj (ms ! i)) \<longrightarrow>
                       (\<exists>sp. getProp h' obj (ms ! i) = Inr sp \<and> isSpy h' sp
                          \<and> (\<not> isSpy h v \<and> ms ! i \<notin> set (take (length bs) ms) \<longrightarrow>
                                map_option spyPlan (spyInfoOf h' sp) = Some Stub)))"
  proof (intro allI impI conjI)
    fix i
    assume range: "length bs \<le> i \<and> i < length ms"
    then show "elementAt bs i = None" by (simp add: elementAt_def)
  next
    fix i v
    assume range: "length bs \<le> i \<and> i < length ms"
      and v: "getProp h obj (ms ! i) = Inr v \<and> isFunction h v
                \<and> (isSpy h v \<or> assignable h obj (ms ! i))"
    from range have m: "ms ! i \<in> set (take (length ms) ms)" by simp
    from v have gv: "getProp h obj (ms ! i) = Inr v" and f: "isFunction h v"
      and either: "isSpy h v \<or> assignable h obj (ms ! i)" by simp_all
    show "\<exists>sp. getProp h' obj (ms ! i) = Inr sp \<and> isSpy h' sp
            \<and> (\<not> isSpy h v \<and> ms ! i \<notin> set (take (length bs) ms) \<longrightarrow>
                  map_option spyPlan (spyInfoOf h' sp) = Some Stub)"
    proof (cases "isSpy h v")
      case True
      with gv have "\<not> spyable h obj (ms ! i)" by (simp add: spyable_iff)
      then have "ms ! i \<notin> {m \<in> set ms. spyable h obj m}" by simp
      with p obj have "getProp h' obj (ms ! i) = getProp h obj (ms ! i)"
        by (rule preserved_getProp)
      with gv have "getProp h' obj (ms ! i) = Inr v" by simp
      moreover from p True have "isSpy h' v" by (rule preserved_isSpy)
      ultimately show ?thesis using True by blast
    next
      case False
      with gv f either have "spyable h obj (ms ! i)" by (simp add: spyable_iff)
      from spiedUpTo_member [OF u m this] obtain sp where
        "getProp h' obj (ms ! i) = Inr sp" "isSpy h' sp"
        "ms ! i \<notin> set (take (length bs) ms) \<longrightarrow> map_option spyPlan (spyInfoOf h' sp) = Some Stub"
        by blast
      then show ?thesis by blast
    qed
  qed
  from res beyond show ?thesis by (intro exI [of _ h'] conjI)
next
  case dangling: False
  then have "spyEachLoop obj ms bs False 0 h = (Ret (), h)" by (rule spyEachLoop_dangling)
  with assms(1) have res: "spyEach obj (Many ms) (Many bs) h = (Ret (VRef obj), h)"
    by (simp add: spyEach_def)
  have none: "\<not> isFunction h v" if "getProp h obj m = Inr v" for m v
  proof -
    from dangling have "getProp h obj m = Inr VUndefined" by (rule getProp_dangling)
    with that have "v = VUndefined" by simp
    then show ?thesis by (simp add: isFunction_def kindOf_def)
  qed
  have beyond: "\<forall>i. length bs \<le> i \<and> i < length ms \<longrightarrow> elementAt bs i = None
                 \<and> (\<forall>v. getProp h obj (ms ! i) = Inr v \<and> isFunction h v
                         \<and> (isSpy h v \<or> assignable h obj (ms ! i)) \<longrightarrow>
                       (\<exists>sp. getProp h obj (ms ! i) = Inr sp \<and> isSpy h sp
                          \<and> (\<not> isSpy h v \<and> ms ! i \<notin> set (take (length bs) ms) \<longrightarrow>
                                map_option spyPlan (spyInfoOf h sp) = Some Stub)))"
    using none by (auto simp: elementAt_def)
  from res beyond show ?thesis by (intro exI [of _ h] conjI)
qed

theorem spyEach_past_the_behaviors_witness:
  "2 \<le> length mixedBehaviors \<and> length mixedBehaviors < length [''foo'', ''bar'', ''baz'']
   \<and> hasBehavior methodsStore \<lparr>name = ''andReturn'', arguments = [VNum 1]\<rparr>
   \<and> hasBehavior methodsStore \<lparr>name = ''toString'', arguments = []\<rparr>
   \<and> getProp methodsStore 2 ''baz'' = Inr (VRef 5)
   \<and> isFunction methodsStore (VRef 5) \<and> \<not> isSpy methodsStore (VRef 5)
   \<and> assignable methodsStore 2 ''baz''
   \<and> (\<exists>h' sp. spyEach 2 (Many [''foo'', ''bar'', ''baz'']) (Many mixedBehaviors) methodsStore
                   = (Ret (VRef 2), h')
          \<and> getProp h' 2 ''baz'' = Inr sp \<and> isSpy h' sp
          \<and> map_option spyPlan (spyInfoOf h' sp) = Some Stub)"
proof -
  let ?ms = "[''foo'', ''bar'', ''baz'']"
  have l1: "2 \<le> length mixedBehaviors" by (simp add: mixedBehaviors_def)
  have l2: "length mixedBehaviors < length ?ms" by (simp add: mixedBehaviors_def)
  have foo: "getProp methodsStore 2 ''foo'' = Inr (VRef 3)" by code_simp
  have bar: "getProp methodsStore 2 ''bar'' = Inr (VRef 4)" by code_simp
  have baz: "getProp methodsStore 2 ''baz'' = Inr (VRef 5)" by code_simp
  have f: "isFunction methodsStore (VRef 5)" by code_simp
  have ns: "\<not> isSpy methodsStore (VRef 5)" by code_simp
  have a: "assignable methodsStore 2 ''baz''" by code_simp
  have b1: "hasBehavior methodsStore \<lparr>name = ''andReturn'', arguments = [VNum 1]\<rparr>"
    by code_simp
  have b2: "hasBehavior methodsStore \<lparr>name = ''toString'', arguments = []\<rparr>"
    by code_simp
  have readable: "\<forall>m\<in>set ?ms. \<exists>v. getProp methodsStore 2 m = Inr v"
    using foo bar baz by simp
  have answered: "\<forall>j<length mixedBehaviors. \<forall>v b. getProp methodsStore 2 (?ms ! j) = Inr v
           \<and> isFunction methodsStore v \<and> \<not> isSpy methodsStore v
           \<and> mixedBehaviors ! j = Some b \<longrightarrow> hasBehavior methodsStore b"
    using b1 b2 by (auto simp: mixedBehaviors_def less_Suc_eq)
  from spyEach_past_the_behaviors [OF l1 l2 readable answered] obtain h' where
    r: "spyEach 2 (Many ?ms) (Many mixedBehaviors) methodsStore = (Ret (VRef 2), h')"
    and beyond: "\<forall>i. length mixedBehaviors \<le> i \<and> i < length ?ms \<longrightarrow>
                   elementAt mixedBehaviors i = None
                 \<and> (\<forall>v. getProp methodsStore 2 (?ms ! i) = Inr v \<and> isFunction methodsStore v
                         \<and> (isSpy methodsStore v \<or> assignable methodsStore 2 (?ms ! i)) \<longrightarrow>
                       (\<exists>sp. getProp h' 2 (?ms ! i) = Inr sp \<and> isSpy h' sp
                          \<and> (\<not> isSpy methodsStore v
                             \<and> ?ms ! i \<notin> set (take (length mixedBehaviors) ?ms) \<longrightarrow>
                                map_option spyPlan (spyInfoOf h' sp) = Some Stub)))"
    by (elim exE conjE)
  have "length mixedBehaviors \<le> 2 \<and> 2 < length ?ms" by (simp add: mixedBehaviors_def)
  with beyond have "\<forall>v. getProp methodsStore 2 (?ms ! 2) = Inr v \<and> isFunction methodsStore v
                         \<and> (isSpy methodsStore v \<or> assignable methodsStore 2 (?ms ! 2)) \<longrightarrow>
                       (\<exists>sp. getProp h' 2 (?ms ! 2) = Inr sp \<and> isSpy h' sp
                          \<and> (\<not> isSpy methodsStore v
                             \<and> ?ms ! 2 \<notin> set (take (length mixedBehaviors) ?ms) \<longrightarrow>
                                map_option spyPlan (spyInfoOf h' sp) = Some Stub))"
    by blast
  with baz f ns a obtain sp where
    "getProp h' 2 ''baz'' = Inr sp" "isSpy h' sp"
    "map_option spyPlan (spyInfoOf h' sp) = Some Stub"
    by (auto simp: mixedBehaviors_def)
  with r l1 l2 b1 b2 baz f ns a show ?thesis by blast
qed

text \<open>
  Claim C10 as stated fails in three ways. On \<open>methodsStore\<close>, with two behaviours
  whose name no spy has, the call ends with the \<^verbatim>\<open>TypeError\<close> of line 23 at the
  first method, and \<^verbatim>\<open>baz\<close>, past the end of the behaviours, is not spied. On
  \<open>restrictedStore\<close> the first named member cannot be read, the call ends with the
  exception of that read, and \<^verbatim>\<open>toString\<close>, past the end, is not spied. On
  \<open>frozenStore\<close> the call returns the object, but the read-only function \<^verbatim>\<open>version\<close>,
  past the end, is still that function and not a spy (the object has no member
  \<^verbatim>\<open>missing\<close>).
\<close>

theorem spyEach_leaves_method_unspied:
  "fst (spyEach 2 (Many [''foo'', ''bar'', ''baz'']) (Many [Some bogusBehavior, Some bogusBehavior])
          methodsStore) = Throw TypeError
   \<and> getProp (snd (spyEach 2 (Many [''foo'', ''bar'', ''baz''])
                      (Many [Some bogusBehavior, Some bogusBehavior]) methodsStore))
         2 ''baz'' = Inr (VRef 5)
   \<and> \<not> isSpy (snd (spyEach 2 (Many [''foo'', ''bar'', ''baz''])
                      (Many [Some bogusBehavior, Some bogusBehavior]) methodsStore)) (VRef 5)
   \<and> spyEach 2 (Many [''caller'', ''prototype'', ''toString'']) (Many twoBehaviors) restrictedStore
       = (Throw (Thrown (VStr ''restricted'')), restrictedStore)
   \<and> getProp restrictedStore 2 ''toString'' = Inr (VRef 1)
   \<and> isFunction restrictedStore (VRef 1) \<and> \<not> isSpy restrictedStore (VRef 1)
   \<and> fst (spyEach 2 (Many [''toString'', ''missing'', ''version'']) (Many twoBehaviors)
            frozenStore) = Ret (VRef 2)
   \<and> getProp (snd (spyEach 2 (Many [''toString'', ''missing'', ''version''])
                      (Many twoBehaviors) frozenStore)) 2 ''version'' = Inr (VRef 1)
   \<and> isFunction frozenStore (VRef 1)
   \<and> \<not> isSpy (snd (spyEach 2 (Many [''toString'', ''missing'', ''version''])
                      (Many twoBehaviors) frozenStore)) (VRef 1)"
  by code_simp

end
